theory Spec2Isabelle
  imports Complex_Main
begin

unbundle bit_operations_syntax

section \<open>JavaScript values\<close>

text \<open>
  A JavaScript string is the list of its UTF-16 code units, each a natural number.
  Nothing below needs the bound \<open>< 65536\<close>, so the theorems cover every string of the
  language. \<open>js\<close> turns a literal into its code units.
\<close>

type_synonym jsstring = "nat list"

definition js :: "string \<Rightarrow> jsstring" where
  "js s = map of_char s"

text \<open>
  The result of \<open>parseInt\<close>: \<open>NaN\<close>, or the double nearest to an integer. Every integer
  of magnitude at most \<open>2 ^ 53\<close> is a double, so \<open>Num n\<close> is exact there.
\<close>

datatype jsnum = NaN | Num int

definition is_digit :: "nat \<Rightarrow> bool" where
  "is_digit c \<longleftrightarrow> 48 \<le> c \<and> c \<le> 57"

text \<open>White space and line terminators, as \<open>trim\<close>, \<open>\s\<close> and \<open>parseInt\<close> see them.\<close>

definition is_space :: "nat \<Rightarrow> bool" where
  "is_space c \<longleftrightarrow>
     c \<in> {9, 10, 11, 12, 13, 32, 160, 5760, 8232, 8233, 8239, 8287, 12288, 65279}
     \<or> (8192 \<le> c \<and> c \<le> 8202)"

text \<open>\<open>String(n)\<close> for a non-negative integer below \<open>10 ^ 21\<close>: its decimal digits.\<close>

fun nat_to_str :: "nat \<Rightarrow> jsstring" where
  "nat_to_str n = (if n < 10 then [48 + n] else nat_to_str (n div 10) @ [48 + n mod 10])"

declare nat_to_str.simps [simp del]


definition starts_with :: "jsstring \<Rightarrow> jsstring \<Rightarrow> bool" where
  "starts_with p s \<longleftrightarrow> take (length p) s = p"

text \<open>The value of a digit in the given radix (10 or 16), if it is one.\<close>

definition digit_val :: "nat \<Rightarrow> nat \<Rightarrow> nat option" where
  "digit_val radix c =
     (if is_digit c then Some (c - 48)
      else if radix = 16 \<and> 97 \<le> c \<and> c \<le> 102 then Some (c - 87)
      else if radix = 16 \<and> 65 \<le> c \<and> c \<le> 70 then Some (c - 55)
      else None)"

text \<open>
  \<open>parseInt(s)\<close> with no radix: leading white space is skipped, then an optional sign,
  then an optional \<open>0x\<close>, then the longest run of digits; no digit gives \<open>NaN\<close>.
\<close>

definition parseInt :: "jsstring \<Rightarrow> jsnum" where
  "parseInt s =
     (let t = dropWhile is_space s;
          neg = (case t of [] \<Rightarrow> False | c # _ \<Rightarrow> c = 45);
          u = (case t of [] \<Rightarrow> [] | c # r \<Rightarrow> if c = 45 \<or> c = 43 then r else t);
          hex = (starts_with (js ''0x'') u \<or> starts_with (js ''0X'') u);
          radix = (if hex then 16 else 10);
          v = (if hex then drop 2 u else u);
          ds = takeWhile (\<lambda>c. digit_val radix c \<noteq> None) v;
          m = foldl (\<lambda>a c. a * radix + the (digit_val radix c)) 0 ds
      in if ds = [] then NaN else Num (if neg then - int m else int m))"

text \<open>Comparisons of numbers: every comparison with \<open>NaN\<close> is false.\<close>

fun num_le :: "jsnum \<Rightarrow> jsnum \<Rightarrow> bool" where
  "num_le (Num a) (Num b) = (a \<le> b)"
| "num_le _ _ = False"

fun num_lt :: "jsnum \<Rightarrow> jsnum \<Rightarrow> bool" where
  "num_lt (Num a) (Num b) = (a < b)"
| "num_lt _ _ = False"

text \<open>\<open>s.slice(-2)\<close> and \<open>s.padStart(2, '0')\<close>.\<close>

definition slice_last2 :: "jsstring \<Rightarrow> jsstring" where
  "slice_last2 s = drop (length s - 2) s"

definition padStart2 :: "jsstring \<Rightarrow> jsstring" where
  "padStart2 s = replicate (2 - length s) 48 @ s"

text \<open>The number that a string of decimal digits denotes.\<close>

definition dec_value :: "jsstring \<Rightarrow> nat" where
  "dec_value ds = foldl (\<lambda>a c. a * 10 + (c - 48)) 0 ds"

section \<open>Card material (payer.js)\<close>

record card =
  cardNumber :: jsstring
  expMonth :: jsstring
  expYear :: jsstring
  cvc :: jsstring

subsection \<open>validateLuhn\<close>

text \<open>
  \<open>parseInt(cardNumber[i])\<close> on one code unit, then the doubling step. \<open>None\<close> is \<open>NaN\<close>,
  which every later sum keeps.
\<close>

definition parse_digit :: "nat \<Rightarrow> nat option" where
  "parse_digit c = (if is_digit c then Some (c - 48) else None)"

definition luhn_step :: "bool \<Rightarrow> nat \<Rightarrow> nat" where
  "luhn_step shouldDouble digit =
     (if shouldDouble then (if digit * 2 > 9 then digit * 2 - 9 else digit * 2) else digit)"

text \<open>The loop \<open>for (i = length - 1; i >= 0; i--)\<close>, run over the reversed string.\<close>

fun luhn_loop :: "bool \<Rightarrow> nat option \<Rightarrow> jsstring \<Rightarrow> nat option" where
  "luhn_loop shouldDouble acc [] = acc"
| "luhn_loop shouldDouble acc (c # cs) =
     luhn_loop (\<not> shouldDouble)
       (case (acc, parse_digit c) of
          (Some s, Some d) \<Rightarrow> Some (s + luhn_step shouldDouble d)
        | _ \<Rightarrow> None)
       cs"

definition validateLuhn :: "jsstring \<Rightarrow> bool" where
  "validateLuhn cn =
     (case luhn_loop False (Some 0) (rev cn) of
        Some s \<Rightarrow> s mod 10 = 0
      | None \<Rightarrow> False)"

subsection \<open>generateCardFromBin\<close>

text \<open>
  The clock and the random source are inputs. Each field of \<open>draws\<close> is the value of one
  \<open>Math.floor(Math.random() * k)\<close>: \<open>Math.random()\<close> lies in \<open>[0, 1)\<close>, so a draw lies
  in \<open>{0 ..< k}\<close>, which \<open>draws_ok\<close> says. Years are those of \<open>getFullYear()\<close>, at most
  275760, so \<open>String(year)\<close> is its decimal digits.
\<close>

record draws =
  fill_digit :: "nat \<Rightarrow> nat"
  month_roll :: nat
  year_roll :: nat
  cvc4_roll :: nat
  cvc3_roll :: nat

definition draws_ok :: "draws \<Rightarrow> bool" where
  "draws_ok d \<longleftrightarrow>
     (\<forall>i. fill_digit d i < 10) \<and> month_roll d < 12 \<and> year_roll d < 5
     \<and> cvc4_roll d < 9000 \<and> cvc3_roll d < 900"

datatype gen_error =
    InvalidBin
  | BinTooShort
  | LuhnFailed
  | ExpiryInPast
  | CvcLengthMismatch

definition clean_bin :: "jsstring \<Rightarrow> jsstring" where
  "clean_bin bin = filter is_digit bin"

definition target_length :: "jsstring \<Rightarrow> nat" where
  "target_length bin =
     (if starts_with (js ''34'') bin \<or> starts_with (js ''37'') bin then 15
      else if starts_with (js ''36'') bin \<or> starts_with (js ''38'') bin then 14
      else 16)"

text \<open>The loop \<open>while (cardNumber.length < targetLength - 1)\<close>; \<open>i\<close> counts the draws.\<close>

function fill_digits :: "(nat \<Rightarrow> nat) \<Rightarrow> nat \<Rightarrow> nat \<Rightarrow> jsstring \<Rightarrow> jsstring" where
  "fill_digits rnd targetLength i cn =
     (if length cn < targetLength - 1
      then fill_digits rnd targetLength (Suc i) (cn @ nat_to_str (rnd i))
      else cn)"
  by pat_completeness auto
termination
  apply (relation "measure (\<lambda>(rnd, targetLength, i, cn). targetLength - 1 - length cn)")
   apply simp
  apply (subst nat_to_str.simps)
  apply (simp split: if_splits)
  apply arith
  done

declare fill_digits.simps [simp del]

text \<open>The check digit: the same loop started with \<open>shouldDouble = true\<close>.\<close>

definition check_digit_str :: "jsstring \<Rightarrow> jsstring" where
  "check_digit_str cn =
     (case luhn_loop True (Some 0) (rev cn) of
        Some s \<Rightarrow> nat_to_str ((10 - s mod 10) mod 10)
      | None \<Rightarrow> js ''NaN'')"

definition gen_number :: "draws \<Rightarrow> jsstring \<Rightarrow> jsstring" where
  "gen_number d bin =
     (let padded = fill_digits (fill_digit d) (target_length bin) 0 bin
      in padded @ check_digit_str padded)"

text \<open>
  The condition of the same-year correction \<open>if (expYear === currentYear && \<dots>)\<close>, and
  the year after it.
\<close>

definition same_year_correction :: "nat \<Rightarrow> nat \<Rightarrow> nat \<Rightarrow> jsstring \<Rightarrow> bool" where
  "same_year_correction currentYear currentMonth year month \<longleftrightarrow>
     year = currentYear \<and> num_le (parseInt month) (Num (int currentMonth))"

definition gen_month :: "draws \<Rightarrow> jsstring" where
  "gen_month d = padStart2 (nat_to_str (month_roll d + 1))"

definition gen_year_full :: "nat \<Rightarrow> nat \<Rightarrow> draws \<Rightarrow> nat" where
  "gen_year_full currentYear currentMonth d =
     (let year = currentYear + year_roll d + 1
      in if same_year_correction currentYear currentMonth year (gen_month d)
         then year + 1 else year)"

text \<open>The check \<open>expYearFull < currentYear || (expYearFull === currentYear && \<dots>)\<close>.\<close>

definition expiry_in_past :: "nat \<Rightarrow> nat \<Rightarrow> jsstring \<Rightarrow> jsstring \<Rightarrow> bool" where
  "expiry_in_past currentYear currentMonth year month \<longleftrightarrow>
     (let expYearFull = parseInt (js ''20'' @ year)
      in num_lt expYearFull (Num (int currentYear))
         \<or> (expYearFull = Num (int currentYear)
            \<and> num_lt (parseInt month) (Num (int currentMonth))))"

definition gen_cvc :: "draws \<Rightarrow> nat \<Rightarrow> jsstring" where
  "gen_cvc d targetLength =
     (if targetLength = 15 then nat_to_str (cvc4_roll d + 1000)
      else nat_to_str (cvc3_roll d + 100))"

definition generateCardFromBin ::
  "nat \<Rightarrow> nat \<Rightarrow> draws \<Rightarrow> jsstring \<Rightarrow> gen_error + card" where
  "generateCardFromBin currentYear currentMonth d bin0 =
     (if bin0 = [] then Inl InvalidBin
      else
        let bin = clean_bin bin0 in
        if length bin < 6 then Inl BinTooShort
        else
          let targetLength = target_length bin;
              number = gen_number d bin
          in
          if \<not> validateLuhn number then Inl LuhnFailed
          else
            let month = gen_month d;
                year = slice_last2 (nat_to_str (gen_year_full currentYear currentMonth d))
            in
            if expiry_in_past currentYear currentMonth year month then Inl ExpiryInPast
            else
              let code = gen_cvc d targetLength;
                  expectedCvcLength = (if targetLength = 15 then 4 else 3)
              in
              if length code \<noteq> expectedCvcLength then Inl CvcLengthMismatch
              else Inr \<lparr>cardNumber = number, expMonth = month, expYear = year, cvc = code\<rparr>)"


subsection \<open>parseCardString\<close>


text \<open>\<open>s.split(sep)\<close> for a separator of one code unit; the empty string gives one empty part.\<close>

fun split_on :: "nat \<Rightarrow> jsstring \<Rightarrow> jsstring list" where
  "split_on sep [] = [[]]"
| "split_on sep (c # cs) =
     (if c = sep then [] # split_on sep cs
      else (case split_on sep cs of
              [] \<Rightarrow> [[c]]
            | p # ps \<Rightarrow> (c # p) # ps))"



section \<open>Decline reasons (response-handler.js)\<close>





section \<open>The checkout URL (checkout-info)\<close>

subsection \<open>decodeURIComponent\<close>

text \<open>
  The library function, after the language standard. \<open>None\<close> is the \<open>URIError\<close> it throws.
  An escape below \<open>0x80\<close> is one code unit; a larger first byte announces a UTF-8 sequence
  of two to four escapes, which must be well formed and is turned into UTF-16.
\<close>

definition hex_val :: "nat \<Rightarrow> nat option" where
  "hex_val c = digit_val 16 c"

text \<open>A string made of escapes \<open>%XX\<close> only, as the bytes they denote.\<close>

fun escaped_bytes :: "jsstring \<Rightarrow> nat list option" where
  "escaped_bytes [] = Some []"
| "escaped_bytes (p # h # l # rest) =
     (case (hex_val h, hex_val l, escaped_bytes rest) of
        (Some a, Some b, Some bs) \<Rightarrow> if p = 37 then Some ((16 * a + b) # bs) else None
      | _ \<Rightarrow> None)"
| "escaped_bytes _ = None"

definition is_continuation :: "nat \<Rightarrow> bool" where
  "is_continuation b \<longleftrightarrow> 128 \<le> b \<and> b < 192"

text \<open>The code point of a UTF-8 sequence, if the sequence is well formed.\<close>

fun utf8_code_point :: "nat list \<Rightarrow> nat option" where
  "utf8_code_point [b0, b1] =
     (let cp = (b0 mod 32) * 64 + b1 mod 64
      in if 192 \<le> b0 \<and> b0 < 224 \<and> is_continuation b1 \<and> 128 \<le> cp then Some cp else None)"
| "utf8_code_point [b0, b1, b2] =
     (let cp = ((b0 mod 16) * 64 + b1 mod 64) * 64 + b2 mod 64
      in if 224 \<le> b0 \<and> b0 < 240 \<and> is_continuation b1 \<and> is_continuation b2
            \<and> 2048 \<le> cp \<and> \<not> (55296 \<le> cp \<and> cp \<le> 57343)
         then Some cp else None)"
| "utf8_code_point [b0, b1, b2, b3] =
     (let cp = (((b0 mod 8) * 64 + b1 mod 64) * 64 + b2 mod 64) * 64 + b3 mod 64
      in if 240 \<le> b0 \<and> b0 < 248 \<and> is_continuation b1 \<and> is_continuation b2
            \<and> is_continuation b3 \<and> 65536 \<le> cp \<and> cp \<le> 1114111
         then Some cp else None)"
| "utf8_code_point _ = None"

definition utf16 :: "nat \<Rightarrow> jsstring" where
  "utf16 cp =
     (if cp < 65536 then [cp]
      else [55296 + (cp - 65536) div 1024, 56320 + (cp - 65536) mod 1024])"

text \<open>The number of escapes that a first byte of \<open>0x80\<close> or more announces after itself.\<close>

definition following_escapes :: "nat \<Rightarrow> nat option" where
  "following_escapes b =
     (if 192 \<le> b \<and> b < 224 then Some 1
      else if 224 \<le> b \<and> b < 240 then Some 2
      else if 240 \<le> b \<and> b < 248 then Some 3
      else None)"

fun decodeURIComponent :: "jsstring \<Rightarrow> jsstring option" where
  "decodeURIComponent [] = Some []"
| "decodeURIComponent (c # cs) =
     (if c \<noteq> 37 then map_option (\<lambda>r. c # r) (decodeURIComponent cs)
      else
        (case cs of
           h # l # rest \<Rightarrow>
             (case (hex_val h, hex_val l) of
                (Some a, Some b) \<Rightarrow>
                  let byte = 16 * a + b in
                  if byte < 128 then map_option (\<lambda>r. byte # r) (decodeURIComponent rest)
                  else
                    (case following_escapes byte of
                       None \<Rightarrow> None
                     | Some n \<Rightarrow>
                         if length rest < 3 * n then None
                         else
                           (case escaped_bytes (take (3 * n) rest) of
                              None \<Rightarrow> None
                            | Some bs \<Rightarrow>
                                (case utf8_code_point (byte # bs) of
                                   None \<Rightarrow> None
                                 | Some cp \<Rightarrow>
                                     map_option (\<lambda>r. utf16 cp @ r)
                                       (decodeURIComponent (drop (3 * n) rest)))))
              | _ \<Rightarrow> None)
         | _ \<Rightarrow> None))"

subsection \<open>The regular expressions\<close>

definition is_alnum :: "nat \<Rightarrow> bool" where
  "is_alnum c \<longleftrightarrow> is_digit c \<or> (65 \<le> c \<and> c \<le> 90) \<or> (97 \<le> c \<and> c \<le> 122)"

text \<open>
  \<open>/cs_(?:live|test)_[A-Za-z0-9]+/\<close> and \<open>/pk_(?:live|test)_[A-Za-z0-9]+/\<close> tried at
  the start of \<open>s\<close>; \<open>tag\<close> is \<open>cs\<close> or \<open>pk\<close>. The class is greedy and nothing follows
  it, so a match takes the longest run.
\<close>

definition match_key :: "jsstring \<Rightarrow> jsstring \<Rightarrow> jsstring option" where
  "match_key tag s =
     (let live = tag @ js ''_live_''; test = tag @ js ''_test_'';
          head = (if starts_with live s then Some live
                  else if starts_with test s then Some test else None)
      in case head of
           None \<Rightarrow> None
         | Some p \<Rightarrow>
             let body = takeWhile is_alnum (drop (length p) s)
             in if body = [] then None else Some (p @ body))"

text \<open>\<open>/https?:\/\/[^\s"']+/\<close> tried at the start of \<open>s\<close>.\<close>

definition match_site :: "jsstring \<Rightarrow> jsstring option" where
  "match_site s =
     (let head = (if starts_with (js ''https://'') s then Some (js ''https://'')
                  else if starts_with (js ''http://'') s then Some (js ''http://'') else None)
      in case head of
           None \<Rightarrow> None
         | Some p \<Rightarrow>
             let body = takeWhile (\<lambda>c. \<not> is_space c \<and> c \<noteq> 34 \<and> c \<noteq> 39) (drop (length p) s)
             in if body = [] then None else Some (p @ body))"

text \<open>\<open>s.match(re)\<close> without the global flag: the match at the leftmost position that has one.\<close>

fun first_match :: "(jsstring \<Rightarrow> jsstring option) \<Rightarrow> jsstring \<Rightarrow> jsstring option" where
  "first_match m [] = m []"
| "first_match m (c # cs) =
     (case m (c # cs) of
        Some r \<Rightarrow> Some r
      | None \<Rightarrow> first_match m cs)"

subsection \<open>Base64 as Node decodes and encodes it\<close>

text \<open>
  \<open>Buffer.from(s, 'base64')\<close> never throws. The decoder reads each code unit through its
  low byte (the cast to \<open>uint8_t\<close> of the native decoder), so a code unit above 255
  counts as the character its low byte is. It accepts both alphabets, skips every other
  character and stops at the first whose low byte is \<open>=\<close>.
\<close>

definition low_byte :: "nat \<Rightarrow> nat" where
  "low_byte c = c mod 256"

definition b64_value :: "nat \<Rightarrow> nat option" where
  "b64_value c =
     (let b = low_byte c in
      if 65 \<le> b \<and> b \<le> 90 then Some (b - 65)
      else if 97 \<le> b \<and> b \<le> 122 then Some (b - 71)
      else if 48 \<le> b \<and> b \<le> 57 then Some (b + 4)
      else if b = 43 \<or> b = 45 then Some 62
      else if b = 47 \<or> b = 95 then Some 63
      else None)"

fun b64_sextets :: "jsstring \<Rightarrow> nat list" where
  "b64_sextets [] = []"
| "b64_sextets (c # cs) =
     (case b64_value c of
        Some v \<Rightarrow> v # b64_sextets cs
      | None \<Rightarrow> if low_byte c = 61 then [] else b64_sextets cs)"

fun sextets_to_bytes :: "nat list \<Rightarrow> nat list" where
  "sextets_to_bytes (a # b # c # d # rest) =
     (a * 4 + b div 16) # ((b mod 16) * 16 + c div 4) # ((c mod 4) * 64 + d)
       # sextets_to_bytes rest"
| "sextets_to_bytes [a, b, c] = [a * 4 + b div 16, (b mod 16) * 16 + c div 4]"
| "sextets_to_bytes [a, b] = [a * 4 + b div 16]"
| "sextets_to_bytes _ = []"

definition base64_decode :: "jsstring \<Rightarrow> nat list" where
  "base64_decode s = sextets_to_bytes (b64_sextets s)"

text \<open>
  \<open>buffer.toString('base64')\<close>, the standard alphabet with padding: what builds a
  fragment from the bytes of a payload.
\<close>

definition b64_char :: "nat \<Rightarrow> nat" where
  "b64_char v =
     (if v < 26 then v + 65 else if v < 52 then v + 71 else if v < 62 then v - 4
      else if v = 62 then 43 else 47)"

fun base64_encode :: "nat list \<Rightarrow> jsstring" where
  "base64_encode (a # b # c # rest) =
     b64_char (a div 4) # b64_char ((a mod 4) * 16 + b div 16)
       # b64_char ((b mod 16) * 4 + c div 64) # b64_char (c mod 64) # base64_encode rest"
| "base64_encode [a, b] =
     [b64_char (a div 4), b64_char ((a mod 4) * 16 + b div 16), b64_char ((b mod 16) * 4), 61]"
| "base64_encode [a] = [b64_char (a div 4), b64_char ((a mod 4) * 16), 61, 61]"
| "base64_encode [] = []"

subsection \<open>parseCheckoutUrl\<close>

record parsed_url =
  sessionId :: "jsstring option"
  publicKey :: "jsstring option"
  site :: "jsstring option"

definition XOR_KEY :: nat where
  "XOR_KEY = 5"

text \<open>\<open>s.indexOf('#')\<close> and the slice after it: \<open>None\<close> when there is no \<open>#\<close>.\<close>

fun after_hash :: "jsstring \<Rightarrow> jsstring option" where
  "after_hash [] = None"
| "after_hash (c # cs) = (if c = 35 then Some cs else after_hash cs)"

text \<open>
  The URL after the first \<open>try\<close>: decoded once, or kept as it is when decoding throws.
  The properties are stated with it.
\<close>

definition decoded_or_raw :: "jsstring \<Rightarrow> jsstring" where
  "decoded_or_raw checkoutUrl =
     (case decodeURIComponent checkoutUrl of None \<Rightarrow> checkoutUrl | Some u \<Rightarrow> u)"

text \<open>The bytes of the buffer, each XORed with the key and turned into a code unit.\<close>

definition deobfuscate :: "jsstring \<Rightarrow> jsstring" where
  "deobfuscate decodedFragment =
     map (\<lambda>byte. byte XOR XOR_KEY) (base64_decode decodedFragment)"

text \<open>
  Control flow with exceptions. A computation that may throw is a sum whose \<open>Inl\<close> is the
  exception; \<open>URIError\<close> is the only one that a call in \<open>parseCheckoutUrl\<close> can throw.
  \<open>call_decodeURIComponent\<close> is the call as a statement, \<open>try_catch\<close> is
  \<open>try { body } catch (err) { handler }\<close>, and \<open>then_do\<close> runs the rest of a function after
  a statement, unless the statement threw.
\<close>

datatype exception = URIError

definition call_decodeURIComponent :: "jsstring \<Rightarrow> exception + jsstring" where
  "call_decodeURIComponent s =
     (case decodeURIComponent s of None \<Rightarrow> Inl URIError | Some decoded \<Rightarrow> Inr decoded)"

definition try_catch :: "exception + 'a \<Rightarrow> (exception \<Rightarrow> exception + 'a) \<Rightarrow> exception + 'a" where
  "try_catch body handler = (case body of Inl err \<Rightarrow> handler err | Inr v \<Rightarrow> Inr v)"

definition then_do :: "exception + 'a \<Rightarrow> ('a \<Rightarrow> exception + 'b) \<Rightarrow> exception + 'b" where
  "then_do statement rest = (case statement of Inl err \<Rightarrow> Inl err | Inr v \<Rightarrow> rest v)"

text \<open>
  The body of the second \<open>try\<close>: it throws when \<open>decodeURIComponent\<close> does, else it gives
  the key and the site found in the payload.
\<close>

definition decode_fragment ::
  "jsstring \<Rightarrow> exception + (jsstring option \<times> jsstring option)" where
  "decode_fragment fragment =
     then_do (call_decodeURIComponent fragment)
       (\<lambda>decodedFragment.
          let decodedPayload = deobfuscate decodedFragment
          in Inr (first_match (match_key (js ''pk'')) decodedPayload,
                  first_match match_site decodedPayload))"

text \<open>
  The function: the guard on the empty string, the first \<open>try\<close> whose handler keeps the URL
  as it was, the session id, and for a URL with a \<open>#\<close> the second \<open>try\<close>, whose handler
  leaves key and site \<open>null\<close>. An exception that no handler caught would be the \<open>Inl\<close> of
  the result.
\<close>

definition parseCheckoutUrl :: "jsstring \<Rightarrow> exception + parsed_url" where
  "parseCheckoutUrl checkoutUrl =
     (if checkoutUrl = [] then Inr \<lparr>sessionId = None, publicKey = None, site = None\<rparr>
      else
        then_do (try_catch (call_decodeURIComponent checkoutUrl) (\<lambda>err. Inr checkoutUrl))
          (\<lambda>url.
             let session = first_match (match_key (js ''cs'')) url in
             case after_hash url of
               None \<Rightarrow> Inr \<lparr>sessionId = session, publicKey = None, site = None\<rparr>
             | Some fragment \<Rightarrow>
                 then_do (try_catch (decode_fragment fragment) (\<lambda>err. Inr (None, None)))
                   (\<lambda>found. Inr \<lparr>sessionId = session, publicKey = fst found,
                                   site = snd found\<rparr>)))"

text \<open>The inverse of the obfuscation: a URL built from a base and the bytes of a payload.\<close>

definition obfuscated_url :: "jsstring \<Rightarrow> nat list \<Rightarrow> jsstring" where
  "obfuscated_url base payload =
     base @ [35] @ base64_encode (map (\<lambda>byte. byte XOR XOR_KEY) payload)"

subsection \<open>What the keys of a URL are\<close>

text \<open>
  The vocabulary of the round-trip property, stated on the text and not on the matcher.
  A key for \<open>tag\<close> is \<open>tag_live_\<close> or \<open>tag_test_\<close> followed by one or more letters and
  digits; a key starts \<open>s\<close> when \<open>s\<close> begins with such a prefix and one letter or digit.
  \<open>first_key tag s t\<close>: \<open>t\<close> is a key that occurs in \<open>s\<close> at a position \<open>i\<close>, is not
  followed by a letter or digit, and no key starts at an earlier position.
\<close>

definition is_key :: "jsstring \<Rightarrow> jsstring \<Rightarrow> bool" where
  "is_key tag t \<longleftrightarrow>
     (starts_with (tag @ js ''_live_'') t \<or> starts_with (tag @ js ''_test_'') t)
     \<and> drop (length tag + 6) t \<noteq> [] \<and> list_all is_alnum (drop (length tag + 6) t)"

definition key_starts :: "jsstring \<Rightarrow> jsstring \<Rightarrow> bool" where
  "key_starts tag s \<longleftrightarrow>
     (starts_with (tag @ js ''_live_'') s \<or> starts_with (tag @ js ''_test_'') s)
     \<and> (case drop (length tag + 6) s of [] \<Rightarrow> False | c # _ \<Rightarrow> is_alnum c)"

definition first_key :: "jsstring \<Rightarrow> jsstring \<Rightarrow> jsstring \<Rightarrow> bool" where
  "first_key tag s t \<longleftrightarrow>
     (\<exists>i \<le> length s.
        is_key tag t \<and> take (length t) (drop i s) = t
        \<and> (case drop (i + length t) s of [] \<Rightarrow> True | c # _ \<Rightarrow> \<not> is_alnum c)
        \<and> (\<forall>j < i. \<not> key_starts tag (drop j s)))"

definition contains_key :: "jsstring \<Rightarrow> jsstring \<Rightarrow> bool" where
  "contains_key tag s \<longleftrightarrow> (\<exists>j \<le> length s. key_starts tag (drop j s))"

section \<open>JSON values\<close>

text \<open>
  What \<open>JSON.parse\<close> returns, and \<open>undefined\<close> for a property that is not there. An object
  is the list of its properties, each key once; a read takes the first entry of a key. A
  number is the rational that the double is.
\<close>

datatype json =
    JUndefined
  | JNull
  | JBool bool
  | JNum rat
  | JStr jsstring
  | JArr "json list"
  | JObj "(jsstring \<times> json) list"

fun truthy :: "json \<Rightarrow> bool" where
  "truthy JUndefined = False"
| "truthy JNull = False"
| "truthy (JBool b) = b"
| "truthy (JNum n) = (n \<noteq> 0)"
| "truthy (JStr s) = (s \<noteq> [])"
| "truthy (JArr vs) = True"
| "truthy (JObj kvs) = True"

text \<open>
  \<open>x.k\<close> on a value that is neither \<open>null\<close> nor \<open>undefined\<close>, for the names that
  \<open>attemptPayment\<close> reads (\<open>id\<close>, \<open>error\<close>, \<open>code\<close>, \<open>status\<close>, \<open>payment_intent\<close>, \<dots>): no
  string, number, boolean or array has a property of such a name.
\<close>

fun get_prop :: "json \<Rightarrow> jsstring \<Rightarrow> json" where
  "get_prop (JObj kvs) k = (case map_of kvs k of Some v \<Rightarrow> v | None \<Rightarrow> JUndefined)"
| "get_prop x k = JUndefined"

text \<open>
  An unguarded read \<open>x.k\<close>: on \<open>null\<close> and \<open>undefined\<close> it throws a \<open>TypeError\<close>, whose
  message (the text of V8) is the \<open>Inl\<close>.
\<close>

definition read_prop :: "json \<Rightarrow> jsstring \<Rightarrow> jsstring + json" where
  "read_prop x k =
     (case x of
        JNull \<Rightarrow> Inl (js ''Cannot read properties of null (reading '' @ [39] @ k @ [39] @ js '')'')
      | JUndefined \<Rightarrow>
          Inl (js ''Cannot read properties of undefined (reading '' @ [39] @ k @ [39] @ js '')'')
      | _ \<Rightarrow> Inr (get_prop x k))"

text \<open>\<open>a || b\<close> on values.\<close>

definition or_else :: "json \<Rightarrow> json \<Rightarrow> json" where
  "or_else a b = (if truthy a then a else b)"

subsection \<open>Object.assign\<close>

fun set_key :: "jsstring \<Rightarrow> json \<Rightarrow> (jsstring \<times> json) list \<Rightarrow> (jsstring \<times> json) list" where
  "set_key k v [] = [(k, v)]"
| "set_key k v ((k', v') # kvs) =
     (if k' = k then (k, v) # kvs else (k', v') # set_key k v kvs)"

text \<open>The own enumerable properties of the source: of an array and of a string, the indices.\<close>

definition own_entries :: "json \<Rightarrow> (jsstring \<times> json) list" where
  "own_entries source =
     (case source of
        JObj kvs \<Rightarrow> kvs
      | JArr vs \<Rightarrow> map (\<lambda>i. (nat_to_str i, vs ! i)) [0 ..< length vs]
      | JStr s \<Rightarrow> map (\<lambda>i. (nat_to_str i, JStr [s ! i])) [0 ..< length s]
      | _ \<Rightarrow> [])"

text \<open>
  One assignment \<open>target[k] = v\<close>. A target that has a property \<open>__proto__\<close> of its own
  (\<open>JSON.parse\<close> makes it an own property) has it overwritten like any other. Otherwise
  the key \<open>__proto__\<close> runs the setter of \<open>Object.prototype\<close>: an object or array value
  becomes the prototype of the target, so that its properties are read wherever the target
  has none of its own, which appending them says; any other value is ignored.
\<close>

definition assign_entry ::
  "(jsstring \<times> json) list \<Rightarrow> jsstring \<times> json \<Rightarrow> (jsstring \<times> json) list" where
  "assign_entry target e =
     (if fst e = js ''__proto__'' \<and> map_of target (js ''__proto__'') = None
      then (case snd e of
              JObj inherited \<Rightarrow> target @ inherited
            | JArr vs \<Rightarrow>
                target @ own_entries (JArr vs) @ [(js ''length'', JNum (of_nat (length vs)))]
            | _ \<Rightarrow> target)
      else set_key (fst e) (snd e) target)"

definition object_assign :: "json \<Rightarrow> json \<Rightarrow> json" where
  "object_assign target source =
     (case target of
        JObj kvs \<Rightarrow> JObj (foldl assign_entry kvs (own_entries source))
      | _ \<Rightarrow> target)"

section \<open>The payment attempt (payer.js)\<close>

subsection \<open>The expected amount\<close>

text \<open>
  The numbers of the computation are doubles: an integer that is one, the two infinities
  and \<open>NaN\<close>. A zero of either sign is \<open>Finite 0\<close>; the two behave alike in every
  operation below. \<open>double_of\<close> is the double nearest to an integer, as \<open>JSON.parse\<close>
  reads a literal and as a sum or a product of integral doubles is rounded: the
  significand keeps 53 bits, a tie goes to the even significand, and a magnitude that
  rounds to \<open>2 ^ 1024\<close> or more is an infinity.
\<close>

datatype number = Finite int | PlusInfinity | MinusInfinity | NotANumber

fun bit_length :: "nat \<Rightarrow> nat" where
  "bit_length n = (if n = 0 then 0 else Suc (bit_length (n div 2)))"

declare bit_length.simps [simp del]

definition round_significand :: "nat \<Rightarrow> nat" where
  "round_significand a =
     (if a < 2 ^ 53 then a
      else
        let step = 2 ^ (bit_length a - 53);
            m = a div step;
            r = a mod step
        in (if step < 2 * r \<or> (2 * r = step \<and> odd m) then m + 1 else m) * step)"

definition double_of :: "int \<Rightarrow> number" where
  "double_of x =
     (let a = round_significand (nat \<bar>x\<bar>) in
      if 2 ^ 1024 \<le> a then (if x < 0 then MinusInfinity else PlusInfinity)
      else Finite (if x < 0 then - int a else int a))"

text \<open>The sign of a number: \<open>-1\<close>, 0 or 1, and 0 for \<open>NaN\<close>.\<close>

definition sign_of :: "number \<Rightarrow> int" where
  "sign_of x =
     (case x of Finite a \<Rightarrow> sgn a | PlusInfinity \<Rightarrow> 1 | MinusInfinity \<Rightarrow> - 1
      | NotANumber \<Rightarrow> 0)"

text \<open>\<open>x + y\<close> and \<open>x * y\<close> on numbers.\<close>

definition num_add :: "number \<Rightarrow> number \<Rightarrow> number" where
  "num_add x y =
     (case (x, y) of
        (Finite a, Finite b) \<Rightarrow> double_of (a + b)
      | (Finite a, _) \<Rightarrow> y
      | (_, Finite b) \<Rightarrow> x
      | _ \<Rightarrow> if x = y then x else NotANumber)"

definition num_mul :: "number \<Rightarrow> number \<Rightarrow> number" where
  "num_mul x y =
     (case (x, y) of
        (Finite a, Finite b) \<Rightarrow> double_of (a * b)
      | _ \<Rightarrow>
          if x = NotANumber \<or> y = NotANumber \<or> sign_of x * sign_of y = 0 then NotANumber
          else if 0 < sign_of x * sign_of y then PlusInfinity
          else MinusInfinity)"

text \<open>\<open>x !== y\<close> and \<open>x > 0\<close> on numbers: \<open>NaN\<close> differs from every number, itself included.\<close>

definition num_differs :: "number \<Rightarrow> number \<Rightarrow> bool" where
  "num_differs x y \<longleftrightarrow> x = NotANumber \<or> y = NotANumber \<or> x \<noteq> y"

definition num_positive :: "number \<Rightarrow> bool" where
  "num_positive x \<longleftrightarrow> (case x of Finite a \<Rightarrow> 0 < a | PlusInfinity \<Rightarrow> True | _ \<Rightarrow> False)"

text \<open>
  The normalised session of \<open>fetchCheckoutInfo\<close>: every field is a value or \<open>null\<close>
  (\<open>None\<close>), and \<open>lineItems\<close> is always an array. Amounts are integers in minor units: a
  field holds the integer that the response writes, and the code computes with its double.
\<close>

record line_item =
  amount :: "int option"
  unitAmount :: "int option"
  quantity :: "int option"

record checkout_info =
  lineItems :: "line_item list"
  totals_total :: "int option"
  customerEmail :: "jsstring option"
  initChecksum :: "jsstring option"
  configId :: "jsstring option"

text \<open>
  \<open>item.amount || (item.unitAmount * (item.quantity || 1))\<close>: \<open>null\<close> and 0 are falsy, and
  \<open>null\<close> multiplies as 0.
\<close>

definition itemAmount :: "line_item \<Rightarrow> number" where
  "itemAmount item =
     (let byUnit =
            num_mul (case unitAmount item of None \<Rightarrow> Finite 0 | Some u \<Rightarrow> double_of u)
              (case quantity item of
                 None \<Rightarrow> Finite 1
               | Some q \<Rightarrow> if q = 0 then Finite 1 else double_of q)
      in case amount item of
           None \<Rightarrow> byUnit
         | Some a \<Rightarrow> if a = 0 then byUnit else double_of a)"

text \<open>
  The computation of \<open>expectedAmount\<close>, which the source writes twice: the \<open>reduce\<close> over
  the line items from 0, or \<open>totals.total || 0\<close> when there is none.
\<close>

definition expectedAmountOf :: "checkout_info \<Rightarrow> number" where
  "expectedAmountOf info =
     (if lineItems info \<noteq> []
      then foldl (\<lambda>acc item. num_add acc (itemAmount item)) (Finite 0) (lineItems info)
      else (case totals_total info of None \<Rightarrow> Finite 0 | Some t \<Rightarrow> double_of t))"

subsection \<open>The outside world\<close>

text \<open>
  A request resolves with a status code and a parsed body, or rejects with a message
  (a network error, or a body that is not JSON). The world fixes, for each kind of call,
  what its \<open>i\<close>-th call gives; a theorem about every world covers every server. \<open>io\<close>
  counts the calls made so far and keeps the \<open>expected_amount\<close> of every confirm call.
\<close>

datatype http_outcome = Rejected jsstring | Resolved int json

record world =
  card_factory :: "nat \<Rightarrow> jsstring + card"
  pm_response :: "nat \<Rightarrow> http_outcome"
  confirm_response :: "nat \<Rightarrow> http_outcome"
  info_response :: "nat \<Rightarrow> jsstring + checkout_info"

record io =
  cards_made :: nat
  pm_calls :: nat
  confirm_calls :: nat
  reconfirm_calls :: nat
  info_calls :: nat
  sent_amounts :: "number list"

definition io0 :: io where
  "io0 = \<lparr>cards_made = 0, pm_calls = 0, confirm_calls = 0, reconfirm_calls = 0,
          info_calls = 0, sent_amounts = []\<rparr>"

definition createPaymentMethod :: "world \<Rightarrow> io \<Rightarrow> http_outcome \<times> io" where
  "createPaymentMethod w s = (pm_response w (pm_calls s), s\<lparr>pm_calls := Suc (pm_calls s)\<rparr>)"

text \<open>\<open>corrective\<close> tells the re-confirm of the mismatch recovery from the first confirm.\<close>

definition confirmPayment :: "world \<Rightarrow> bool \<Rightarrow> number \<Rightarrow> io \<Rightarrow> http_outcome \<times> io" where
  "confirmPayment w corrective expectedAmount s =
     (confirm_response w (confirm_calls s + reconfirm_calls s),
      (if corrective then s\<lparr>reconfirm_calls := Suc (reconfirm_calls s)\<rparr>
       else s\<lparr>confirm_calls := Suc (confirm_calls s)\<rparr>)
        \<lparr>sent_amounts := sent_amounts s @ [expectedAmount]\<rparr>)"

definition fetchCheckoutInfo :: "world \<Rightarrow> io \<Rightarrow> (jsstring + checkout_info) \<times> io" where
  "fetchCheckoutInfo w s = (info_response w (info_calls s), s\<lparr>info_calls := Suc (info_calls s)\<rparr>)"

text \<open>\<open>card\<close> is an object or a function; a function is called once per iteration.\<close>

datatype card_source = Literal card | Factory

definition resolve_card :: "world \<Rightarrow> card_source \<Rightarrow> io \<Rightarrow> (jsstring + card) \<times> io" where
  "resolve_card w src s =
     (case src of
        Literal c \<Rightarrow> (Inr c, s)
      | Factory \<Rightarrow> (card_factory w (cards_made s), s\<lparr>cards_made := Suc (cards_made s)\<rparr>))"

subsection \<open>The result\<close>

text \<open>
  The object that \<open>attemptPayment\<close> returns; a key that is absent is \<open>None\<close>. The
  \<open>timestamp\<close> of the last shape is the clock and is left out.
\<close>

record attempt_result =
  success :: bool
  attempts :: nat
  status :: jsstring
  card :: "card option"
  error :: "json option"
  paymentMethod :: "json option"
  requires3DS :: "json option"
  paymentIntent :: "json option"
  confirmation :: "json option"

datatype attempt_error =
    ParserThrew exception
  | CannotExtract
  | InfoFailed jsstring
  | FactoryThrew jsstring

text \<open>\<open>{ message: err.message }\<close>, the value that the \<open>catch\<close> stores.\<close>

definition caught :: "jsstring \<Rightarrow> json" where
  "caught msg = JObj [(js ''message'', JStr msg)]"

text \<open>
  \<open>createDetailedResponse\<close> of the enhanced response handler, on the object
  \<open>{ success: false, attempts, error: lastError }\<close> that \<open>attemptPayment\<close> passes: the
  keys \<open>confirmation\<close>, \<open>card\<close> and \<open>paymentMethod\<close> are absent, so those branches are not
  taken.
\<close>

definition createDetailedResponse :: "nat \<Rightarrow> json \<Rightarrow> attempt_result" where
  "createDetailedResponse n lastError =
     \<lparr>success = False,
      attempts = (if n = 0 then 1 else n),
      status = js ''declined'',
      card = None,
      error = (if truthy lastError then Some lastError else None),
      paymentMethod = None, requires3DS = None, paymentIntent = None, confirmation = None\<rparr>"

subsection \<open>One iteration\<close>

text \<open>
  The amount-mismatch block. \<open>Inl\<close> is the message of what it throws: the re-fetch or the
  re-confirm failing. \<open>Object.assign\<close> writes into \<open>responseData\<close>, which is
  \<open>confirmResponse.data\<close> itself, so the merged object is what every later line reads.
\<close>

definition mismatch_recovery ::
  "world \<Rightarrow> number \<Rightarrow> json \<Rightarrow> io \<Rightarrow> (jsstring + json) \<times> io" where
  "mismatch_recovery w expectedAmount responseData s =
     (if truthy (get_prop responseData (js ''error''))
         \<and> get_prop (get_prop responseData (js ''error'')) (js ''code'')
             = JStr (js ''checkout_amount_mismatch'')
      then
        (case fetchCheckoutInfo w s of
           (Inl msg, s1) \<Rightarrow> (Inl msg, s1)
         | (Inr updatedInfo, s1) \<Rightarrow>
             let recalculatedAmount = expectedAmountOf updatedInfo in
             if num_differs recalculatedAmount expectedAmount \<and> num_positive recalculatedAmount
             then
               (case confirmPayment w True recalculatedAmount s1 of
                  (Rejected msg, s2) \<Rightarrow> (Inl msg, s2)
                | (Resolved retryStatus retryData, s2) \<Rightarrow>
                    (Inr (object_assign responseData retryData), s2))
             else (Inr responseData, s1))
      else (Inr responseData, s))"

text \<open>The tests on the working response.\<close>

definition isComplete :: "json \<Rightarrow> bool" where
  "isComplete responseData \<longleftrightarrow> get_prop responseData (js ''status'') = JStr (js ''complete'')"

definition requires3DS_of :: "json \<Rightarrow> json" where
  "requires3DS_of responseData =
     (let pi = get_prop responseData (js ''payment_intent'') in
      if \<not> truthy pi then pi
      else if get_prop pi (js ''status'') \<noteq> JStr (js ''requires_action'') then JBool False
      else get_prop pi (js ''next_action''))"

definition isDeclined :: "json \<Rightarrow> bool" where
  "isDeclined responseData \<longleftrightarrow>
     truthy (get_prop responseData (js ''payment_intent''))
     \<and> get_prop (get_prop responseData (js ''payment_intent'')) (js ''status'')
         = JStr (js ''requires_payment_method'')"

definition hasError :: "json \<Rightarrow> bool" where
  "hasError responseData \<longleftrightarrow>
     truthy (get_prop responseData (js ''error''))
     \<or> (truthy (get_prop responseData (js ''payment_intent''))
        \<and> truthy (get_prop (get_prop responseData (js ''payment_intent'')) (js ''last_payment_error'')))"

definition declined_result :: "nat \<Rightarrow> card \<Rightarrow> json \<Rightarrow> attempt_result" where
  "declined_result n currentCard responseData =
     (let errorInfo =
            or_else (get_prop responseData (js ''error''))
              (or_else (get_prop (get_prop responseData (js ''payment_intent'')) (js ''last_payment_error''))
                 (JObj []))
      in \<lparr>success = False, attempts = n, status = js ''declined'', card = Some currentCard,
          error = Some (JObj
            [(js ''code'', or_else (get_prop errorInfo (js ''code'')) (JStr (js ''card_declined''))),
             (js ''message'',
                or_else (get_prop errorInfo (js ''message'')) (JStr (js ''Card was declined''))),
             (js ''type'', or_else (get_prop errorInfo (js ''type'')) (JStr (js ''card_error''))),
             (js ''decline_code'',
                or_else (get_prop errorInfo (js ''decline_code'')) (JStr (js ''generic_decline'')))]),
          paymentMethod = None, requires3DS = None, paymentIntent = None,
          confirmation = Some responseData\<rparr>)"

definition approved_result :: "nat \<Rightarrow> card \<Rightarrow> json \<Rightarrow> json \<Rightarrow> attempt_result" where
  "approved_result n currentCard pmData responseData =
     (let needs = requires3DS_of responseData;
          pi = get_prop responseData (js ''payment_intent'')
      in \<lparr>success = True, attempts = n, status = js ''approved'', card = Some currentCard,
          error = None, paymentMethod = Some pmData, requires3DS = Some needs,
          paymentIntent = Some
            (if truthy needs
             then JObj [(js ''id'', get_prop pi (js ''id'')), (js ''status'', get_prop pi (js ''status'')),
                        (js ''amount'', get_prop pi (js ''amount'')),
                        (js ''currency'', get_prop pi (js ''currency''))]
             else JNull),
          confirmation = Some responseData\<rparr>)"

text \<open>What an iteration ends in: a returned object, or the next pass with a new \<open>lastError\<close>.\<close>

datatype iteration = Returned attempt_result | NextTry json

definition classify :: "nat \<Rightarrow> card \<Rightarrow> json \<Rightarrow> int \<Rightarrow> json \<Rightarrow> iteration" where
  "classify n currentCard pmData confirmStatus responseData =
     (if isDeclined responseData \<or> hasError responseData
      then Returned (declined_result n currentCard responseData)
      else if confirmStatus = 200
              \<and> (isComplete responseData \<or> truthy (requires3DS_of responseData))
      then Returned (approved_result n currentCard pmData responseData)
      else NextTry (or_else (get_prop responseData (js ''error'')) responseData))"

text \<open>From the confirm call on; every throw inside is caught and becomes the \<open>lastError\<close>.\<close>

definition confirm_stage ::
  "world \<Rightarrow> number \<Rightarrow> nat \<Rightarrow> card \<Rightarrow> json \<Rightarrow> io \<Rightarrow> iteration \<times> io" where
  "confirm_stage w expectedAmount n currentCard pmData s =
     (case confirmPayment w False expectedAmount s of
        (Rejected msg, s1) \<Rightarrow> (NextTry (caught msg), s1)
      | (Resolved confirmStatus responseData, s1) \<Rightarrow>
          (case read_prop responseData (js ''error'') of
             Inl msg \<Rightarrow> (NextTry (caught msg), s1)
           | Inr e \<Rightarrow>
               (case mismatch_recovery w expectedAmount responseData s1 of
                  (Inl msg, s2) \<Rightarrow> (NextTry (caught msg), s2)
                | (Inr merged, s2) \<Rightarrow>
                    (classify n currentCard pmData confirmStatus merged, s2))))"

text \<open>
  The test \<open>pmResponse.statusCode !== 200 || !pmResponse.data.id\<close>: \<open>data.id\<close> is read
  only when the status is 200, and the read throws on a body that is \<open>null\<close>.
\<close>

definition pm_failed :: "int \<Rightarrow> json \<Rightarrow> jsstring + bool" where
  "pm_failed pmStatus pmData =
     (if pmStatus \<noteq> 200 then Inr True
      else (case read_prop pmData (js ''id'') of
              Inl msg \<Rightarrow> Inl msg
            | Inr v \<Rightarrow> Inr (\<not> truthy v)))"

text \<open>The body of the \<open>try\<close>.\<close>

definition try_body :: "world \<Rightarrow> number \<Rightarrow> nat \<Rightarrow> card \<Rightarrow> io \<Rightarrow> iteration \<times> io" where
  "try_body w expectedAmount n currentCard s =
     (case createPaymentMethod w s of
        (Rejected msg, s1) \<Rightarrow> (NextTry (caught msg), s1)
      | (Resolved pmStatus pmData, s1) \<Rightarrow>
          (case pm_failed pmStatus pmData of
             Inl msg \<Rightarrow> (NextTry (caught msg), s1)
           | Inr True \<Rightarrow>
               (case read_prop pmData (js ''error'') of
                  Inl msg \<Rightarrow> (NextTry (caught msg), s1)
                | Inr e \<Rightarrow>
                    (NextTry (or_else e
                       (JObj [(js ''message'', JStr (js ''Failed to create payment method''))])),
                     s1))
           | Inr False \<Rightarrow> confirm_stage w expectedAmount n currentCard pmData s1))"

subsection \<open>The retry loop and attemptPayment\<close>

text \<open>
  \<open>while (attempts <= retries)\<close>. \<open>retries\<close> is a number, \<open>NaN\<close> included (the route passes
  the result of \<open>parseInt\<close>). The card is resolved outside the \<open>try\<close>, so a factory that
  throws makes \<open>attemptPayment\<close> reject.
\<close>

function attempt_loop ::
  "world \<Rightarrow> card_source \<Rightarrow> number \<Rightarrow> jsnum \<Rightarrow> nat \<Rightarrow> json \<Rightarrow> io
   \<Rightarrow> (attempt_error + attempt_result) \<times> io" where
  "attempt_loop w src expectedAmount retries n lastError s =
     (if num_le (Num (int n)) retries
      then
        (case resolve_card w src s of
           (Inl msg, s1) \<Rightarrow> (Inl (FactoryThrew msg), s1)
         | (Inr currentCard, s1) \<Rightarrow>
             (case try_body w expectedAmount (Suc n) currentCard s1 of
                (Returned r, s2) \<Rightarrow> (Inr r, s2)
              | (NextTry e, s2) \<Rightarrow> attempt_loop w src expectedAmount retries (Suc n) e s2))
      else (Inr (createDetailedResponse n lastError), s))"
  by pat_completeness auto
termination
  by (relation "measure (\<lambda>(w, src, expectedAmount, retries, n, lastError, s).
        case retries of NaN \<Rightarrow> 0 | Num r \<Rightarrow> nat (r + 1 - int n))")
     (auto split: jsnum.splits)

declare attempt_loop.simps [simp del]

definition attemptPayment ::
  "world \<Rightarrow> jsstring \<Rightarrow> card_source \<Rightarrow> jsnum \<Rightarrow> (attempt_error + attempt_result) \<times> io" where
  "attemptPayment w checkoutUrl src retries =
     (case parseCheckoutUrl checkoutUrl of
        Inl err \<Rightarrow> (Inl (ParserThrew err), io0)
      | Inr parsed \<Rightarrow>
          if sessionId parsed \<in> {None, Some []} \<or> publicKey parsed \<in> {None, Some []}
          then (Inl CannotExtract, io0)
          else
            (case fetchCheckoutInfo w io0 of
               (Inl msg, s1) \<Rightarrow> (Inl (InfoFailed msg), s1)
             | (Inr info, s1) \<Rightarrow>
                 attempt_loop w src (expectedAmountOf info) retries 0 JNull s1))"

subsection \<open>Sample data\<close>

text \<open>
  A checkout URL, a card, a session of two line items and three worlds, for the concrete
  statements below. In each world the payment method is created. In \<open>declining_world\<close> the
  confirm call answers with a card error. In \<open>mismatch_world\<close> the first confirm answers
  with \<open>checkout_amount_mismatch\<close>, the session fetched again totals 1500, and the second
  confirm answers 200 with a body whose status is \<open>complete\<close> and which has no \<open>error\<close>.
  In \<open>broken_refetch_world\<close> the confirm answers with the mismatch and fetching the
  session again fails.
\<close>

definition sample_url :: jsstring where
  "sample_url = obfuscated_url (js ''x/cs_test_a1B2'') (js ''{k:pk_test_51Abc}'')"

definition sample_card :: card where
  "sample_card = \<lparr>cardNumber = js ''4242424242424242'', expMonth = js ''12'',
                   expYear = js ''30'', cvc = js ''123''\<rparr>"

definition sample_info :: checkout_info where
  "sample_info =
     \<lparr>lineItems = [\<lparr>amount = Some 500, unitAmount = None, quantity = None\<rparr>,
                   \<lparr>amount = Some 700, unitAmount = None, quantity = None\<rparr>],
      totals_total = None, customerEmail = None, initChecksum = None, configId = None\<rparr>"

definition updated_info :: checkout_info where
  "updated_info =
     \<lparr>lineItems = [\<lparr>amount = Some 1500, unitAmount = None, quantity = None\<rparr>],
      totals_total = Some 1500, customerEmail = None, initChecksum = None, configId = None\<rparr>"

definition created_pm :: json where
  "created_pm = JObj [(js ''id'', JStr (js ''pm_1''))]"

definition card_error_body :: json where
  "card_error_body = JObj [(js ''error'', JObj [(js ''code'', JStr (js ''card_declined''))])]"

definition mismatch_body :: json where
  "mismatch_body =
     JObj [(js ''error'', JObj [(js ''code'', JStr (js ''checkout_amount_mismatch''))])]"

definition complete_body :: json where
  "complete_body = JObj [(js ''status'', JStr (js ''complete''))]"

definition declining_world :: world where
  "declining_world =
     \<lparr>card_factory = (\<lambda>i. Inr sample_card),
      pm_response = (\<lambda>i. Resolved 200 created_pm),
      confirm_response = (\<lambda>i. Resolved 402 card_error_body),
      info_response = (\<lambda>i. Inr sample_info)\<rparr>"

definition mismatch_world :: world where
  "mismatch_world =
     \<lparr>card_factory = (\<lambda>i. Inr sample_card),
      pm_response = (\<lambda>i. Resolved 200 created_pm),
      confirm_response = (\<lambda>i. if i = 0 then Resolved 400 mismatch_body
                                else Resolved 200 complete_body),
      info_response = (\<lambda>i. if i = 0 then Inr sample_info else Inr updated_info)\<rparr>"

definition broken_refetch_world :: world where
  "broken_refetch_world =
     \<lparr>card_factory = (\<lambda>i. Inr sample_card),
      pm_response = (\<lambda>i. Resolved 200 created_pm),
      confirm_response = (\<lambda>i. Resolved 400 mismatch_body),
      info_response = (\<lambda>i. if i = 0 then Inr sample_info else Inl (js ''timeout''))\<rparr>"

definition discounted_info :: checkout_info where
  "discounted_info =
     \<lparr>lineItems = [\<lparr>amount = Some 0, unitAmount = Some 500, quantity = Some 2\<rparr>],
      totals_total = Some 0, customerEmail = None, initChecksum = None, configId = None\<rparr>"

text \<open>A world whose session is \<open>discounted_info\<close> and whose confirm call completes.\<close>

definition discount_world :: world where
  "discount_world =
     \<lparr>card_factory = (\<lambda>i. Inr sample_card),
      pm_response = (\<lambda>i. Resolved 200 created_pm),
      confirm_response = (\<lambda>i. Resolved 200 complete_body),
      info_response = (\<lambda>i. Inr discounted_info)\<rparr>"

text \<open>The amount of a line item as the data model has it, \<open>null\<close> counting as 0.\<close>

definition listed_amount :: "line_item \<Rightarrow> int" where
  "listed_amount item = (case amount item of None \<Rightarrow> 0 | Some a \<Rightarrow> a)"

section \<open>Properties of the card generator\<close>

subsection \<open>Decimal strings and \<open>parseInt\<close>\<close>

lemma nat_to_str_digit: "n < 10 \<Longrightarrow> nat_to_str n = [48 + n]"
  by (subst nat_to_str.simps) simp

lemma nat_to_str_step: "10 \<le> n \<Longrightarrow> nat_to_str n = nat_to_str (n div 10) @ [48 + n mod 10]"
  by (subst nat_to_str.simps) simp

lemma nat_to_str_last: "\<exists>pre. nat_to_str n = pre @ [48 + n mod 10]"
  by (cases "n < 10") (simp_all add: nat_to_str_digit nat_to_str_step)

lemma last2_of_year:
  assumes "10 \<le> y"
  shows "slice_last2 (nat_to_str y) = [48 + (y div 10) mod 10, 48 + y mod 10]"
proof -
  obtain pre where pre: "nat_to_str (y div 10) = pre @ [48 + (y div 10) mod 10]"
    using nat_to_str_last by blast
  then have "nat_to_str y = pre @ [48 + (y div 10) mod 10, 48 + y mod 10]"
    using assms by (simp add: nat_to_str_step)
  then show ?thesis by (simp add: slice_last2_def)
qed

lemma digit_not_space: "is_digit c \<Longrightarrow> \<not> is_space c"
  by (auto simp: is_digit_def is_space_def)

lemma digits_not_hex:
  assumes "list_all is_digit ds"
  shows "\<not> starts_with (js ''0x'') ds" and "\<not> starts_with (js ''0X'') ds"
proof -
  have "\<not> is_digit 120" "\<not> is_digit 88" by (simp_all add: is_digit_def)
  with assms show "\<not> starts_with (js ''0x'') ds" and "\<not> starts_with (js ''0X'') ds"
    by (cases ds; cases "tl ds"; auto simp: starts_with_def js_def)+
qed

lemma foldl_digit_val:
  "list_all is_digit ds \<Longrightarrow>
   foldl (\<lambda>a c. a * 10 + the (digit_val 10 c)) k ds = foldl (\<lambda>a c. a * 10 + (c - 48)) k ds"
  by (induction ds arbitrary: k) (simp_all add: digit_val_def)

lemma parseInt_digits:
  assumes "ds \<noteq> []" and "list_all is_digit ds"
  shows "parseInt ds = Num (int (dec_value ds))"
proof -
  obtain c r where ds: "ds = c # r" using assms(1) by (cases ds) auto
  have c: "is_digit c" using assms(2) ds by simp
  have t: "dropWhile is_space ds = ds" using c ds by (simp add: digit_not_space)
  have sg: "c \<noteq> 45" "c \<noteq> 43" using c by (auto simp: is_digit_def)
  have tw: "takeWhile (\<lambda>c. digit_val 10 c \<noteq> None) ds = ds"
    using assms(2) by (simp add: takeWhile_eq_all_conv list_all_iff digit_val_def)
  have "parseInt ds = Num (int (foldl (\<lambda>a c. a * 10 + the (digit_val 10 c)) 0 ds))"
    unfolding parseInt_def t Let_def
    using digits_not_hex [OF assms(2)] sg tw assms(1)
    by (simp add: ds)
  then show ?thesis by (simp add: foldl_digit_val [OF assms(2)] dec_value_def)
qed


lemma year_mod_100: "(y div 10) mod 10 * 10 + y mod 10 = y mod 100" for y :: nat
proof -
  have "y mod (10 * 10) = 10 * (y div 10 mod 10) + y mod 10" by (rule mod_mult2_eq)
  then show ?thesis by simp
qed

lemma full_year_rebuilt:
  "parseInt (js ''20'' @ slice_last2 (nat_to_str y)) =
     Num (if y < 10 then 200 + int y else 2000 + int (y mod 100))"
proof (cases "y < 10")
  case True
  have "parseInt [50, 48, 48 + y] = Num (int (dec_value [50, 48, 48 + y]))"
    using True by (intro parseInt_digits) (simp_all add: is_digit_def)
  then show ?thesis using True
    by (simp add: nat_to_str_digit slice_last2_def js_def dec_value_def)
next
  case False
  let ?q = "(y div 10) mod 10" and ?r = "y mod 10"
  have l2: "slice_last2 (nat_to_str y) = [48 + ?q, 48 + ?r]"
    using False by (simp add: last2_of_year)
  have "?q < 10" "?r < 10" by simp_all
  then have "is_digit (48 + ?q)" "is_digit (48 + ?r)"
    unfolding is_digit_def by linarith+
  then have "parseInt [50, 48, 48 + ?q, 48 + ?r] = Num (int (dec_value [50, 48, 48 + ?q, 48 + ?r]))"
    by (intro parseInt_digits) (simp_all add: is_digit_def)
  moreover have "dec_value [50, 48, 48 + ?q, 48 + ?r] = 2000 + (?q * 10 + ?r)"
    by (simp add: dec_value_def)
  ultimately have "parseInt [50, 48, 48 + ?q, 48 + ?r] = Num (2000 + int (y mod 100))"
    by (simp only: year_mod_100)  simp
  then show ?thesis using False by (simp add: l2 js_def)
qed

lemma gen_month_value:
  assumes "month_roll d < 12"
  shows "parseInt (gen_month d) = Num (int (month_roll d) + 1)"
proof (cases "month_roll d < 9")
  case True
  then have gm: "gen_month d = [48, 49 + month_roll d]"
    by (simp add: gen_month_def nat_to_str_digit padStart2_def)
  have "parseInt [48, 49 + month_roll d] = Num (int (dec_value [48, 49 + month_roll d]))"
    using True by (intro parseInt_digits) (simp_all add: is_digit_def)
  then show ?thesis by (simp add: gm dec_value_def)
next
  case False
  then have gm: "gen_month d = [49, 39 + month_roll d]"
    using assms by (simp add: gen_month_def nat_to_str_step nat_to_str_digit padStart2_def) presburger
  have "parseInt [49, 39 + month_roll d] = Num (int (dec_value [49, 39 + month_roll d]))"
    using False assms by (intro parseInt_digits) (simp_all add: is_digit_def)
  then show ?thesis using False by (simp add: gm dec_value_def)
qed

lemma gen_year_full_eq: "gen_year_full cy cm d = cy + year_roll d + 1"
  by (simp add: gen_year_full_def Let_def same_year_correction_def)

lemma length_nat_to_str_3: "100 \<le> n \<Longrightarrow> n < 1000 \<Longrightarrow> length (nat_to_str n) = 3"
  by (simp add: nat_to_str_step nat_to_str_digit)

lemma length_nat_to_str_4: "1000 \<le> n \<Longrightarrow> n < 10000 \<Longrightarrow> length (nat_to_str n) = 4"
  by (simp add: nat_to_str_step nat_to_str_digit)

lemma expiry_not_in_past:
  assumes "cy \<le> 2094" and "r < 5"
  shows "\<not> expiry_in_past cy cm (slice_last2 (nat_to_str (cy + r + 1))) m"
proof -
  let ?y = "cy + r + 1"
  have le: "?y \<le> 2099" using assms by simp
  define n where "n = (if ?y < 10 then 200 + int ?y else 2000 + int (?y mod 100))"
  have p: "parseInt (js ''20'' @ slice_last2 (nat_to_str ?y)) = Num n"
    unfolding n_def by (rule full_year_rebuilt)
  have "int cy < n"
  proof (cases "?y < 2000")
    case True
    then show ?thesis unfolding n_def by auto
  next
    case False
    define k where "k = ?y - 2000"
    have k: "?y = 2000 + k" and "k < 100"
      using False le by (simp_all add: k_def)
    have "(k + 20 * 100) mod 100 = k mod 100" by (rule mod_mult_self1)
    with k \<open>k < 100\<close> have "?y mod 100 = k" by (simp add: add.commute)
    with k False show ?thesis unfolding n_def using assms(2) by simp
  qed
  then show ?thesis
    unfolding expiry_in_past_def Let_def p by simp
qed

lemma gen_cvc_length:
  assumes "cvc4_roll d < 9000" and "cvc3_roll d < 900"
  shows "length (gen_cvc d t) = (if t = 15 then 4 else 3)"
  using assms by (simp add: gen_cvc_def length_nat_to_str_3 length_nat_to_str_4)

lemma luhn_loop_None: "luhn_loop b None cs = None"
  by (induction cs arbitrary: b) auto

lemma luhn_loop_shift:
  "luhn_loop b (Some (a + k)) cs = map_option (\<lambda>t. a + t) (luhn_loop b (Some k) cs)"
proof (induction cs arbitrary: b k)
  case Nil
  then show ?case by simp
next
  case (Cons c cs)
  show ?case
  proof (cases "parse_digit c")
    case None
    then show ?thesis by (simp add: luhn_loop_None)
  next
    case (Some dgt)
    then show ?thesis using Cons.IH [of "\<not> b" "k + luhn_step b dgt"]
      by (simp add: add.assoc)
  qed
qed

lemma luhn_loop_digits:
  "list_all is_digit cs \<Longrightarrow> \<exists>t. luhn_loop b (Some a) cs = Some t"
proof (induction cs arbitrary: b a)
  case Nil
  then show ?case by simp
next
  case (Cons c cs)
  then show ?case by (simp add: parse_digit_def)
qed

lemma fill_digits_all_digits:
  "\<forall>i. rnd i < 10 \<Longrightarrow> list_all is_digit cn \<Longrightarrow> list_all is_digit (fill_digits rnd t i cn)"
proof (induction rnd t i cn rule: fill_digits.induct)
  case (1 rnd targetLength i cn)
  show ?case
  proof (cases "length cn < targetLength - 1")
    case True
    have "rnd i < 10" using 1(2) by blast
    then have "is_digit (48 + rnd i)" by (simp add: is_digit_def)
    with \<open>rnd i < 10\<close> 1(3) have "list_all is_digit (cn @ nat_to_str (rnd i))"
      by (simp add: nat_to_str_digit)
    then have "list_all is_digit (fill_digits rnd targetLength (Suc i) (cn @ nat_to_str (rnd i)))"
      using 1(1) [OF True 1(2)] by blast
    with True show ?thesis by (subst fill_digits.simps) simp
  next
    case False
    with 1(3) show ?thesis by (subst fill_digits.simps) simp
  qed
qed

lemma check_digit_closes:
  assumes "list_all is_digit cn"
  shows "validateLuhn (cn @ check_digit_str cn)"
proof -
  from assms have "list_all is_digit (rev cn)" by (simp add: list_all_iff)
  then obtain s where s: "luhn_loop True (Some 0) (rev cn) = Some s"
    using luhn_loop_digits by blast
  define k where "k = (10 - s mod 10) mod 10"
  have k10: "k < 10" by (simp add: k_def)
  have cd: "check_digit_str cn = [48 + k]"
    by (simp add: check_digit_str_def s k_def nat_to_str_digit)
  have pd: "parse_digit (48 + k) = Some k"
    using k10 by (simp add: parse_digit_def is_digit_def)
  have "luhn_loop False (Some 0) (rev (cn @ [48 + k])) = luhn_loop True (Some (k + 0)) (rev cn)"
    by (simp add: pd luhn_step_def)
  also have "\<dots> = map_option (\<lambda>t. k + t) (luhn_loop True (Some 0) (rev cn))"
    by (rule luhn_loop_shift)
  also have "\<dots> = Some (k + s)"
    by (simp add: s)
  finally have "luhn_loop False (Some 0) (rev (cn @ check_digit_str cn)) = Some (k + s)"
    by (simp add: cd)
  moreover have "(k + s) mod 10 = 0"
  proof -
    have r: "((10 - r) mod 10 + r) mod 10 = 0" if "r < 10" for r :: nat
      using that by (cases "r = 0") auto
    have "(k + s) mod 10 = (k + s mod 10) mod 10"
      by (simp add: mod_add_right_eq)
    also have "\<dots> = 0"
      unfolding k_def by (rule r) simp
    finally show ?thesis .
  qed
  ultimately show ?thesis by (simp add: validateLuhn_def)
qed

lemma gen_number_valid:
  assumes "\<forall>i. fill_digit d i < 10"
  shows "validateLuhn (gen_number d (clean_bin bin))"
proof -
  have "list_all is_digit (clean_bin bin)"
    by (simp add: clean_bin_def list_all_iff)
  then have "list_all is_digit (fill_digits (fill_digit d) (target_length (clean_bin bin)) 0 (clean_bin bin))"
    using assms by (rule fill_digits_all_digits [rotated])
  then show ?thesis
    by (simp add: gen_number_def Let_def check_digit_closes)
qed

lemma generated_card_ok:
  assumes len: "6 \<le> length (clean_bin bin)" and ok: "draws_ok d" and cy: "cy \<le> 2094"
  shows "generateCardFromBin cy cm d bin =
           Inr \<lparr>cardNumber = gen_number d (clean_bin bin), expMonth = gen_month d,
                expYear = slice_last2 (nat_to_str (cy + year_roll d + 1)),
                cvc = gen_cvc d (target_length (clean_bin bin))\<rparr>"
proof -
  have ne: "bin \<noteq> []" using len by (auto simp: clean_bin_def)
  have fd: "\<forall>i. fill_digit d i < 10" using ok by (simp add: draws_ok_def)
  have l: "validateLuhn (gen_number d (clean_bin bin))" by (rule gen_number_valid [OF fd])
  have r: "year_roll d < 5" using ok by (simp add: draws_ok_def)
  have e: "\<not> expiry_in_past cy cm (slice_last2 (nat_to_str (cy + year_roll d + 1))) (gen_month d)"
    by (rule expiry_not_in_past [OF cy r])
  have c: "length (gen_cvc d (target_length (clean_bin bin))) =
             (if target_length (clean_bin bin) = 15 then 4 else 3)"
    using ok by (intro gen_cvc_length) (simp_all add: draws_ok_def)
  show ?thesis
    unfolding generateCardFromBin_def Let_def gen_year_full_eq
    using ne len l e c by simp
qed

lemma sample_bin: "clean_bin (js ''424242'') = [52, 50, 52, 50, 52, 50]"
  by (simp add: clean_bin_def js_def is_digit_def)

subsection \<open>The Luhn invariant\<close>

text \<open>
  C5. For every prefix that keeps at least six digits after cleaning and every sequence
  of random digits, the number that \<open>generateCardFromBin\<close> builds passes
  \<open>validateLuhn\<close>: the branch that throws "Generated card failed Luhn validation" is
  never taken, and a returned card carries a Luhn-valid number.
\<close>

theorem generated_card_passes_luhn:
  assumes "6 \<le> length (clean_bin bin)" and "\<forall>i. fill_digit d i < 10"
  shows "validateLuhn (gen_number d (clean_bin bin))
         \<and> generateCardFromBin cy cm d bin \<noteq> Inl LuhnFailed
         \<and> (\<forall>c. generateCardFromBin cy cm d bin = Inr c \<longrightarrow> validateLuhn (cardNumber c))"
  using gen_number_valid [OF assms(2), of bin]
  by (auto simp: generateCardFromBin_def Let_def split: if_splits)

theorem generated_card_passes_luhn_witness:
  "6 \<le> length (clean_bin (js ''424242''))
   \<and> (\<forall>i. fill_digit \<lparr>fill_digit = (\<lambda>i. (i * 7 + 3) mod 10), month_roll = 4, year_roll = 2,
                        cvc4_roll = 1234, cvc3_roll = 456\<rparr> i < 10)
   \<and> (\<exists>c. generateCardFromBin 2026 11
             \<lparr>fill_digit = (\<lambda>i. (i * 7 + 3) mod 10), month_roll = 4, year_roll = 2,
              cvc4_roll = 1234, cvc3_roll = 456\<rparr> (js ''424242'') = Inr c
          \<and> validateLuhn (cardNumber c))"
proof -
  let ?d = "\<lparr>fill_digit = (\<lambda>i. (i * 7 + 3) mod 10), month_roll = 4, year_roll = 2,
             cvc4_roll = 1234, cvc3_roll = 456\<rparr>"
  have h1: "6 \<le> length (clean_bin (js ''424242''))" by (simp add: sample_bin)
  have h2: "\<forall>i. fill_digit ?d i < 10" by simp
  have ok: "draws_ok ?d" by (simp add: draws_ok_def)
  obtain c where c: "generateCardFromBin 2026 11 ?d (js ''424242'') = Inr c"
    using generated_card_ok [OF h1 ok, of 2026 11] by simp
  with generated_card_passes_luhn [OF h1 h2, of 2026 11] have "validateLuhn (cardNumber c)"
    by blast
  with h1 h2 c show ?thesis by blast
qed

subsection \<open>The expiry of a generated card\<close>

text \<open>
  C10 as stated fails when the clock is past 2094: the code rebuilds the full year as
  \<open>'20'\<close> followed by the last two digits, so in 2095 a roll of five years gives 2100,
  which reads back as 2000 and takes the "Generated expiration date is in the past" branch.
\<close>

theorem expiry_error_reachable_counterexample:
  "draws_ok \<lparr>fill_digit = (\<lambda>i. 3), month_roll = 4, year_roll = 4,
             cvc4_roll = 1234, cvc3_roll = 456\<rparr>
   \<and> generateCardFromBin 2095 11
        \<lparr>fill_digit = (\<lambda>i. 3), month_roll = 4, year_roll = 4,
         cvc4_roll = 1234, cvc3_roll = 456\<rparr> (js ''424242'') = Inl ExpiryInPast"
proof -
  let ?d = "\<lparr>fill_digit = (\<lambda>i. 3), month_roll = 4, year_roll = 4,
             cvc4_roll = 1234, cvc3_roll = 456\<rparr>"
  have ok: "draws_ok ?d" by (simp add: draws_ok_def)
  have l: "validateLuhn (gen_number ?d (clean_bin (js ''424242'')))"
    by (rule gen_number_valid) simp
  have "parseInt (js ''20'' @ slice_last2 (nat_to_str 2100)) = Num 2000"
    by (simp add: full_year_rebuilt)
  then have e: "expiry_in_past 2095 11 (slice_last2 (nat_to_str 2100)) (gen_month ?d)"
    by (simp add: expiry_in_past_def Let_def)
  have ne: "js ''424242'' \<noteq> []" by (simp add: js_def)
  have "generateCardFromBin 2095 11 ?d (js ''424242'') = Inl ExpiryInPast"
    unfolding generateCardFromBin_def Let_def gen_year_full_eq
    using l e ne by (simp add: sample_bin)
  with ok show ?thesis by blast
qed

lemma returned_year:
  assumes "generateCardFromBin cy cm d bin = Inr c"
  shows "expYear c = slice_last2 (nat_to_str (gen_year_full cy cm d))"
  using assms
  by (simp add: generateCardFromBin_def Let_def split: if_splits) auto

lemma expiry_error_needs_check:
  assumes "generateCardFromBin cy cm d bin = Inl ExpiryInPast"
  shows "expiry_in_past cy cm (slice_last2 (nat_to_str (gen_year_full cy cm d))) (gen_month d)"
  using assms
  by (simp add: generateCardFromBin_def Let_def split: if_splits)

text \<open>
  C10, amended. For every clock, the year chosen lies between \<open>currentYear + 1\<close> and
  \<open>currentYear + 5\<close>, so it is after the current year whatever the month; the condition
  of the same-year correction is false; and a card that is returned carries the last two
  digits of that year. While the current year is at most 2094, the expiry check does not
  fire, the "Generated expiration date is in the past" error is not returned, and every
  call with a prefix of at least six digits returns a card.
\<close>

theorem generated_expiry_in_future:
  assumes "draws_ok d"
  shows "cy + 1 \<le> gen_year_full cy cm d \<and> gen_year_full cy cm d \<le> cy + 5
         \<and> \<not> same_year_correction cy cm (cy + year_roll d + 1) (gen_month d)
         \<and> (\<forall>c. generateCardFromBin cy cm d bin = Inr c
                \<longrightarrow> expYear c = slice_last2 (nat_to_str (gen_year_full cy cm d)))
         \<and> (cy \<le> 2094 \<longrightarrow>
               \<not> expiry_in_past cy cm (slice_last2 (nat_to_str (gen_year_full cy cm d)))
                    (gen_month d)
               \<and> generateCardFromBin cy cm d bin \<noteq> Inl ExpiryInPast
               \<and> (6 \<le> length (clean_bin bin)
                    \<longrightarrow> (\<exists>c. generateCardFromBin cy cm d bin = Inr c)))"
proof -
  have r: "year_roll d < 5" using assms by (simp add: draws_ok_def)
  have range: "cy + 1 \<le> gen_year_full cy cm d \<and> gen_year_full cy cm d \<le> cy + 5"
    using r by (simp add: gen_year_full_eq)
  have same: "\<not> same_year_correction cy cm (cy + year_roll d + 1) (gen_month d)"
    by (simp add: same_year_correction_def)
  have future: "\<not> expiry_in_past cy cm (slice_last2 (nat_to_str (gen_year_full cy cm d)))
                    (gen_month d)" if "cy \<le> 2094"
    using expiry_not_in_past [OF that r] by (simp add: gen_year_full_eq)
  have no_error: "generateCardFromBin cy cm d bin \<noteq> Inl ExpiryInPast" if "cy \<le> 2094"
    using future [OF that] expiry_error_needs_check by blast
  have card: "\<exists>c. generateCardFromBin cy cm d bin = Inr c"
    if "cy \<le> 2094" "6 \<le> length (clean_bin bin)"
    using generated_card_ok [OF that(2) assms that(1)] by simp
  from range same returned_year future no_error card show ?thesis by blast
qed

theorem generated_expiry_in_future_witness:
  "draws_ok \<lparr>fill_digit = (\<lambda>i. 3), month_roll = 4, year_roll = 4,
             cvc4_roll = 1234, cvc3_roll = 456\<rparr>
   \<and> (2026::nat) \<le> 2094
   \<and> 6 \<le> length (clean_bin (js ''424242''))
   \<and> gen_year_full 2026 11 \<lparr>fill_digit = (\<lambda>i. 3), month_roll = 4, year_roll = 4,
                              cvc4_roll = 1234, cvc3_roll = 456\<rparr> = 2031
   \<and> (\<exists>c. generateCardFromBin 2026 11
             \<lparr>fill_digit = (\<lambda>i. 3), month_roll = 4, year_roll = 4,
              cvc4_roll = 1234, cvc3_roll = 456\<rparr> (js ''424242'') = Inr c
          \<and> expYear c = js ''31'')"
proof -
  let ?d = "\<lparr>fill_digit = (\<lambda>i. 3), month_roll = 4, year_roll = 4,
             cvc4_roll = 1234, cvc3_roll = 456\<rparr>"
  have h1: "draws_ok ?d" by (simp add: draws_ok_def)
  have h2: "(2026::nat) \<le> 2094" by simp
  have h3: "6 \<le> length (clean_bin (js ''424242''))" by (simp add: sample_bin)
  have g: "gen_year_full 2026 11 ?d = 2031" by (simp add: gen_year_full_eq)
  have y: "slice_last2 (nat_to_str (gen_year_full 2026 11 ?d)) = js ''31''"
    by (simp add: gen_year_full_eq last2_of_year js_def)
  note t = generated_expiry_in_future [OF h1, of 2026 11 "js ''424242''"]
  from t h2 h3 obtain c where c: "generateCardFromBin 2026 11 ?d (js ''424242'') = Inr c"
    by blast
  with t have "expYear c = slice_last2 (nat_to_str (gen_year_full 2026 11 ?d))" by blast
  with c y h1 h2 h3 g show ?thesis by auto
qed

section \<open>Properties of \<open>parseCardString\<close>\<close>







lemma length_split_on: "1 \<le> length (split_on sep s)"
  by (induction s) (auto split: list.splits)













section \<open>Properties of the decline-reason lookup\<close>











section \<open>Properties of \<open>parseCheckoutUrl\<close>\<close>

subsection \<open>Base64 and the XOR key\<close>

lemma decode_no_percent: "37 \<notin> set s \<Longrightarrow> decodeURIComponent s = Some s"
  by (induction s) auto

lemma first_try_value:
  "try_catch (call_decodeURIComponent u) (\<lambda>err. Inr u) = Inr (decoded_or_raw u)"
  by (simp add: try_catch_def call_decodeURIComponent_def decoded_or_raw_def
      split: option.splits)

lemma second_try_value:
  "try_catch (decode_fragment f) (\<lambda>err. Inr (None, None)) =
     Inr (case decodeURIComponent f of
            None \<Rightarrow> (None, None)
          | Some g \<Rightarrow> (first_match (match_key (js ''pk'')) (deobfuscate g),
                       first_match match_site (deobfuscate g)))"
  by (simp add: try_catch_def decode_fragment_def then_do_def call_decodeURIComponent_def
      Let_def split: option.splits)

lemma parseCheckoutUrl_value:
  "parseCheckoutUrl u =
     Inr (if u = [] then \<lparr>sessionId = None, publicKey = None, site = None\<rparr>
          else
            let found = (case after_hash (decoded_or_raw u) of
                           None \<Rightarrow> (None, None)
                         | Some f \<Rightarrow>
                             (case decodeURIComponent f of
                                None \<Rightarrow> (None, None)
                              | Some g \<Rightarrow>
                                  (first_match (match_key (js ''pk'')) (deobfuscate g),
                                   first_match match_site (deobfuscate g))))
            in \<lparr>sessionId = first_match (match_key (js ''cs'')) (decoded_or_raw u),
                publicKey = fst found, site = snd found\<rparr>)"
  by (simp add: parseCheckoutUrl_def first_try_value second_try_value then_do_def Let_def
      split: option.splits)

lemma b64_char_plain: "b64_char v \<noteq> 35" "b64_char v \<noteq> 37" "b64_char v \<noteq> 95" "b64_char v \<noteq> 61"
  by (auto simp: b64_char_def)

lemma b64_value_char: "v < 64 \<Longrightarrow> b64_value (b64_char v) = Some v"
  by (auto simp: b64_char_def b64_value_def low_byte_def Let_def)

lemma div16_bound: "b < 256 \<Longrightarrow> b div 16 < 16" for b :: nat
  by (simp add: less_mult_imp_div_less)

lemma div64_bound: "c < 256 \<Longrightarrow> c div 64 < 4" for c :: nat
  by (simp add: less_mult_imp_div_less)

lemma sextet_bounds:
  "a < 256 \<Longrightarrow> a div 4 < 64" "b < 256 \<Longrightarrow> (a mod 4) * 16 + b div 16 < 64"
  "c < 256 \<Longrightarrow> (b mod 16) * 4 + c div 64 < 64" "c mod 64 < 64"
  "(a mod 4) * 16 < 64" "(b mod 16) * 4 < 64"
  for a b c :: nat
  by simp_all

lemma regroup_first: "b < 256 \<Longrightarrow> (a div 4) * 4 + ((a mod 4) * 16 + b div 16) div 16 = a"
  for a b :: nat
  by (simp add: div16_bound)

lemma regroup_second:
  "b < 256 \<Longrightarrow> c < 256 \<Longrightarrow>
   (((a mod 4) * 16 + b div 16) mod 16) * 16 + ((b mod 16) * 4 + c div 64) div 4 = b"
  for a b c :: nat
  by (simp add: div16_bound div64_bound)

lemma regroup_third: "c < 256 \<Longrightarrow> (((b mod 16) * 4 + c div 64) mod 4) * 64 + c mod 64 = c"
  for b c :: nat
  by (simp add: div64_bound)

lemma regroup_second_last:
  "b < 256 \<Longrightarrow> (((a mod 4) * 16 + b div 16) mod 16) * 16 + ((b mod 16) * 4) div 4 = b"
  for a b :: nat
  by (simp add: div16_bound)

lemma regroup_first_last: "(a div 4) * 4 + ((a mod 4) * 16) div 16 = a"
  for a :: nat
  by simp

lemma sextets_of_group:
  assumes "v0 < 64" "v1 < 64" "v2 < 64" "v3 < 64"
  shows "b64_sextets (b64_char v0 # b64_char v1 # b64_char v2 # b64_char v3 # rest)
         = v0 # v1 # v2 # v3 # b64_sextets rest"
  using assms by (simp add: b64_value_char)

lemma b64_value_pad: "b64_value 61 = None" "low_byte 61 = 61"
  by (simp_all add: b64_value_def low_byte_def)

lemma base64_roundtrip:
  "\<forall>b \<in> set bs. b < 256 \<Longrightarrow> base64_decode (base64_encode bs) = bs"
  unfolding base64_decode_def
proof (induction bs rule: base64_encode.induct)
  case (1 a b c rest)
  then have lt: "a < 256" "b < 256" "c < 256" and r: "\<forall>x \<in> set rest. x < 256"
    by simp_all
  have "b64_sextets (base64_encode (a # b # c # rest))
        = a div 4 # ((a mod 4) * 16 + b div 16) # ((b mod 16) * 4 + c div 64) # c mod 64
          # b64_sextets (base64_encode rest)"
    using lt by (simp only: base64_encode.simps) (rule sextets_of_group; simp)
  then show ?case
    using 1(1) [OF r] lt
    by (simp add: regroup_first regroup_second regroup_third)
next
  case (2 a b)
  then have lt: "a < 256" "b < 256" by simp_all
  have "b64_sextets (base64_encode [a, b])
        = [a div 4, (a mod 4) * 16 + b div 16, (b mod 16) * 4]"
    using lt by (simp add: b64_value_char b64_value_pad)
  then show ?case using lt by (simp add: regroup_first regroup_second_last)
next
  case (3 a)
  then have lt: "a < 256" by simp
  have "b64_sextets (base64_encode [a]) = [a div 4, (a mod 4) * 16]"
    using lt by (simp add: b64_value_char b64_value_pad)
  then show ?case by (simp add: regroup_first_last)
next
  case 4
  then show ?case by simp
qed

lemma base64_encode_plain:
  "35 \<notin> set (base64_encode bs)" "37 \<notin> set (base64_encode bs)" "95 \<notin> set (base64_encode bs)"
  by (induction bs rule: base64_encode.induct; simp add: b64_char_plain [symmetric])+

lemma xor_key_byte: "b < 256 \<Longrightarrow> b XOR XOR_KEY < 256"
proof -
  assume "b < 256"
  then have "take_bit 8 b = b" by (simp add: take_bit_nat_eq_self)
  moreover have "take_bit 8 XOR_KEY = XOR_KEY" by (simp add: XOR_KEY_def take_bit_nat_eq_self)
  ultimately have "take_bit 8 (b XOR XOR_KEY) = b XOR XOR_KEY"
    by (simp add: take_bit_xor)
  moreover have "take_bit 8 (b XOR XOR_KEY) < 2 ^ 8" by (rule take_bit_nat_less_exp)
  ultimately show ?thesis by simp
qed

lemma xor_key_twice: "(b XOR XOR_KEY) XOR XOR_KEY = b"
  by (simp add: xor.assoc)

lemma deobfuscate_obfuscated:
  assumes "\<forall>b \<in> set payload. b < 256"
  shows "map (\<lambda>byte. byte XOR XOR_KEY)
           (base64_decode (base64_encode (map (\<lambda>byte. byte XOR XOR_KEY) payload))) = payload"
proof -
  have "\<forall>b \<in> set (map (\<lambda>byte. byte XOR XOR_KEY) payload). b < 256"
    using assms by (simp add: xor_key_byte)
  then have "base64_decode (base64_encode (map (\<lambda>byte. byte XOR XOR_KEY) payload))
             = map (\<lambda>byte. byte XOR XOR_KEY) payload"
    by (rule base64_roundtrip)
  then show ?thesis by (simp add: xor_key_twice comp_def)
qed

lemma after_hash_append:
  "35 \<notin> set base \<Longrightarrow> after_hash (base @ 35 # fragment) = Some fragment"
  by (induction base) auto

lemma after_hash_none: "after_hash s = None \<longleftrightarrow> 35 \<notin> set s"
  by (induction s) auto

subsection \<open>The regular expressions find the first key\<close>

lemma starts_with_prefix: "starts_with p s \<longleftrightarrow> (\<exists>r. s = p @ r)"
proof
  assume "starts_with p s"
  then have "s = p @ drop (length p) s"
    unfolding starts_with_def by (metis append_take_drop_id)
  then show "\<exists>r. s = p @ r" ..
next
  assume "\<exists>r. s = p @ r"
  then show "starts_with p s" by (auto simp: starts_with_def)
qed

lemma starts_with_length: "starts_with p s \<Longrightarrow> length p \<le> length s"
  by (auto simp: starts_with_prefix)

lemma starts_with_append: "starts_with p s \<Longrightarrow> starts_with p (s @ r)"
  by (auto simp: starts_with_prefix)

lemma starts_with_append_long:
  "length p \<le> length s \<Longrightarrow> starts_with p (s @ r) \<longleftrightarrow> starts_with p s"
  by (simp add: starts_with_def)

lemma starts_with_stop:
  assumes "x \<notin> set p"
  shows "starts_with p (s @ x # r) \<longleftrightarrow> starts_with p s"
proof (cases "length p \<le> length s")
  case True
  then show ?thesis by (rule starts_with_append_long)
next
  case False
  then have short: "length s < length p" by simp
  have "\<not> starts_with p s" using short starts_with_length by fastforce
  moreover have "\<not> starts_with p (s @ x # r)"
  proof
    assume "starts_with p (s @ x # r)"
    then have "take (length p) (s @ x # r) = p" by (simp add: starts_with_def)
    moreover have "(take (length p) (s @ x # r)) ! length s = x"
      using short by (simp add: nth_append)
    moreover have "length s < length (take (length p) (s @ x # r))"
      using short by simp
    ultimately have "x \<in> set p" by (metis nth_mem)
    with assms show False by simp
  qed
  ultimately show ?thesis by simp
qed

lemma live_test_differ: "tag @ js ''_live_'' \<noteq> tag @ js ''_test_''"
  by (simp add: js_def)

lemma length_key_prefix:
  "length (tag @ js ''_live_'') = length tag + 6" "length (tag @ js ''_test_'') = length tag + 6"
  "length (js ''_live_'') = 6" "length (js ''_test_'') = 6"
  by (simp_all add: js_def)

lemma not_both_prefixes:
  "starts_with (tag @ js ''_live_'') s \<Longrightarrow> \<not> starts_with (tag @ js ''_test_'') s"
  by (auto simp: starts_with_prefix js_def)

lemma underscore_in_prefix:
  "95 \<in> set (tag @ js ''_live_'')" "95 \<in> set (tag @ js ''_test_'')"
  by (simp_all add: js_def)

lemma match_key_eq:
  "match_key tag s =
     (if starts_with (tag @ js ''_live_'') s \<or> starts_with (tag @ js ''_test_'') s
      then (if takeWhile is_alnum (drop (length tag + 6) s) = [] then None
            else Some (take (length tag + 6) s @ takeWhile is_alnum (drop (length tag + 6) s)))
      else None)"
proof -
  have "take (length tag + 6) s = tag @ js ''_live_''" if "starts_with (tag @ js ''_live_'') s"
    using that by (simp add: starts_with_def length_key_prefix)
  moreover have "take (length tag + 6) s = tag @ js ''_test_''" if "starts_with (tag @ js ''_test_'') s"
    using that by (simp add: starts_with_def length_key_prefix)
  ultimately show ?thesis
    using not_both_prefixes [of tag s]
    by (auto simp: match_key_def Let_def length_key_prefix)
qed

lemma takeWhile_empty: "takeWhile P xs = [] \<longleftrightarrow> (case xs of [] \<Rightarrow> True | c # _ \<Rightarrow> \<not> P c)"
  by (cases xs) auto

lemma takeWhile_stop: "list_all P xs \<Longrightarrow> \<not> P x \<Longrightarrow> takeWhile P (xs @ x # r) = xs"
  by (induction xs) auto

lemma takeWhile_all: "list_all P xs \<Longrightarrow> takeWhile P xs = xs"
  by (induction xs) auto

lemma takeWhile_early: "\<not> list_all P xs \<Longrightarrow> takeWhile P (xs @ r) = takeWhile P xs"
  by (induction xs) auto

lemma match_key_some_iff: "match_key tag s \<noteq> None \<longleftrightarrow> key_starts tag s"
  by (auto simp: match_key_eq key_starts_def takeWhile_empty split: list.splits)

lemma match_key_delimited:
  assumes "is_key tag t" and "case post of [] \<Rightarrow> True | c # _ \<Rightarrow> \<not> is_alnum c"
  shows "match_key tag (t @ post) = Some t"
proof -
  let ?n = "length tag + 6"
  from assms(1) have sw: "starts_with (tag @ js ''_live_'') t \<or> starts_with (tag @ js ''_test_'') t"
    and body: "drop ?n t \<noteq> []" "list_all is_alnum (drop ?n t)"
    by (simp_all add: is_key_def)
  from sw have len: "?n \<le> length t"
    using starts_with_length length_key_prefix by metis
  from sw have sw': "starts_with (tag @ js ''_live_'') (t @ post)
                     \<or> starts_with (tag @ js ''_test_'') (t @ post)"
    using starts_with_append by blast
  have "takeWhile is_alnum (drop ?n (t @ post)) = takeWhile is_alnum (drop ?n t @ post)"
    using len by simp
  also have "\<dots> = drop ?n t"
    using body(2) assms(2)
    by (cases post) (simp_all add: takeWhile_stop takeWhile_all)
  finally have tw: "takeWhile is_alnum (drop ?n (t @ post)) = drop ?n t" .
  have "take ?n (t @ post) = take ?n t" using len by simp
  with sw' tw body(1) show ?thesis by (simp add: match_key_eq)
qed

lemma first_match_here: "m s = Some t \<Longrightarrow> first_match m s = Some t"
  by (cases s) simp_all

lemma first_match_skip:
  "\<forall>j < length pre. m (drop j (pre @ s)) = None \<Longrightarrow> first_match m (pre @ s) = first_match m s"
proof (induction pre)
  case Nil
  then show ?case by simp
next
  case (Cons c pre)
  have "m ((c # pre) @ s) = None" using Cons.prems by (auto dest: spec [of _ 0])
  moreover have "\<forall>j < length pre. m (drop j (pre @ s)) = None"
  proof (intro allI impI)
    fix j assume "j < length pre"
    then have "m (drop (Suc j) ((c # pre) @ s)) = None" using Cons.prems by (auto dest: spec [of _ "Suc j"])
    then show "m (drop j (pre @ s)) = None" by simp
  qed
  ultimately show ?case using Cons.IH by simp
qed

lemma first_key_found:
  assumes "first_key tag s t"
  shows "first_match (match_key tag) s = Some t"
proof -
  from assms obtain i where i: "i \<le> length s" "is_key tag t" "take (length t) (drop i s) = t"
    "case drop (i + length t) s of [] \<Rightarrow> True | c # _ \<Rightarrow> \<not> is_alnum c"
    "\<forall>j < i. \<not> key_starts tag (drop j s)"
    unfolding first_key_def by blast
  define post where "post = drop (i + length t) s"
  have d: "drop i s = t @ post"
    using i(3) by (metis post_def add.commute append_take_drop_id drop_drop)
  have s: "s = take i s @ t @ post" using d by (metis append_take_drop_id)
  have here: "match_key tag (t @ post) = Some t"
    using i(2,4) by (intro match_key_delimited) (simp_all add: post_def)
  have li: "length (take i s) = i" using i(1) by simp
  have "\<forall>j < length (take i s). match_key tag (drop j (take i s @ t @ post)) = None"
    using i(5) li s match_key_some_iff by (metis)
  then have "first_match (match_key tag) (take i s @ t @ post) = first_match (match_key tag) (t @ post)"
    by (rule first_match_skip)
  with here s show ?thesis by (simp add: first_match_here)
qed

lemma first_match_none_iff:
  "first_match m s = None \<longleftrightarrow> (\<forall>j \<le> length s. m (drop j s) = None)"
proof (induction s)
  case Nil
  then show ?case by simp
next
  case (Cons c s)
  have "(\<forall>j \<le> length (c # s). m (drop j (c # s)) = None)
        \<longleftrightarrow> m (c # s) = None \<and> (\<forall>j \<le> length s. m (drop j s) = None)"
  proof
    assume a: "\<forall>j \<le> length (c # s). m (drop j (c # s)) = None"
    have "m (c # s) = None" using a by (auto dest: spec [of _ 0])
    moreover have "m (drop j s) = None" if "j \<le> length s" for j
      using a that by (auto dest: spec [of _ "Suc j"])
    ultimately show "m (c # s) = None \<and> (\<forall>j \<le> length s. m (drop j s) = None)" by blast
  next
    assume a: "m (c # s) = None \<and> (\<forall>j \<le> length s. m (drop j s) = None)"
    show "\<forall>j \<le> length (c # s). m (drop j (c # s)) = None"
    proof (intro allI impI)
      fix j assume "j \<le> length (c # s)"
      then show "m (drop j (c # s)) = None" using a by (cases j) auto
    qed
  qed
  with Cons.IH show ?case by (auto split: option.splits)
qed

lemma no_key_iff:
  "first_match (match_key tag) s = None \<longleftrightarrow> (\<forall>j \<le> length s. \<not> key_starts tag (drop j s))"
proof -
  have "match_key tag x = None \<longleftrightarrow> \<not> key_starts tag x" for x
    using match_key_some_iff [of tag x] by blast
  then show ?thesis by (simp add: first_match_none_iff)
qed

lemma match_key_needs_underscore: "95 \<notin> set s \<Longrightarrow> match_key tag s = None"
proof -
  assume a: "95 \<notin> set s"
  have "\<not> starts_with p s" if "95 \<in> set p" for p
    using a that by (auto simp: starts_with_prefix)
  then have "\<not> starts_with (tag @ js ''_live_'') s" "\<not> starts_with (tag @ js ''_test_'') s"
    using underscore_in_prefix by blast+
  then show ?thesis by (simp add: match_key_eq)
qed

lemma first_match_needs_underscore: "95 \<notin> set s \<Longrightarrow> first_match (match_key tag) s = None"
  by (induction s) (simp_all add: match_key_needs_underscore)

lemma match_key_before_hash:
  assumes "35 \<notin> set tag"
  shows "match_key tag (s @ 35 # r) = match_key tag s"
proof -
  let ?n = "length tag + 6"
  have h: "35 \<notin> set (tag @ js ''_live_'')" "35 \<notin> set (tag @ js ''_test_'')"
    using assms by (simp_all add: js_def)
  have sw: "starts_with (tag @ js ''_live_'') (s @ 35 # r) = starts_with (tag @ js ''_live_'') s"
    "starts_with (tag @ js ''_test_'') (s @ 35 # r) = starts_with (tag @ js ''_test_'') s"
    using h by (simp_all add: starts_with_stop)
  show ?thesis
  proof (cases "starts_with (tag @ js ''_live_'') s \<or> starts_with (tag @ js ''_test_'') s")
    case False
    then show ?thesis by (simp add: match_key_eq sw)
  next
    case True
    then have len: "?n \<le> length s"
      using starts_with_length length_key_prefix by metis
    have na: "\<not> is_alnum 35" by (simp add: is_alnum_def is_digit_def)
    have "takeWhile is_alnum (drop ?n (s @ 35 # r)) = takeWhile is_alnum (drop ?n s @ 35 # r)"
      using len by simp
    also have "\<dots> = takeWhile is_alnum (drop ?n s)"
    proof (cases "list_all is_alnum (drop ?n s)")
      case True
      then show ?thesis using na by (simp add: takeWhile_stop takeWhile_all)
    next
      case False
      then show ?thesis by (rule takeWhile_early)
    qed
    finally have tw: "takeWhile is_alnum (drop ?n (s @ 35 # r)) = takeWhile is_alnum (drop ?n s)" .
    have "take ?n (s @ 35 # r) = take ?n s" using len by simp
    with tw show ?thesis by (simp add: match_key_eq sw)
  qed
qed

lemma first_match_before_hash:
  assumes "35 \<notin> set tag" and "95 \<notin> set r"
  shows "first_match (match_key tag) (s @ 35 # r) = first_match (match_key tag) s"
proof (induction s)
  case Nil
  have "match_key tag ([] @ 35 # r) = match_key tag []" by (rule match_key_before_hash [OF assms(1)])
  then show ?case
    using assms(2) by (simp add: first_match_needs_underscore match_key_needs_underscore)
next
  case (Cons c s)
  have "match_key tag ((c # s) @ 35 # r) = match_key tag (c # s)"
    by (rule match_key_before_hash [OF assms(1)])
  with Cons.IH show ?case by (simp split: option.splits)
qed

lemma key_starts_underscore:
  assumes "key_starts tag s"
  shows "length tag < length s \<and> s ! length tag = 95"
proof -
  from assms obtain p r where p: "p = js ''_live_'' \<or> p = js ''_test_''" and s: "s = (tag @ p) @ r"
    by (auto simp: key_starts_def starts_with_prefix)
  from p obtain q where "p = 95 # q" by (auto simp: js_def)
  with s show ?thesis by (simp add: nth_append)
qed

lemma no_key_before:
  assumes "95 \<notin> set (take (i + length tag) s)"
  shows "\<forall>j < i. \<not> key_starts tag (drop j s)"
proof (intro allI impI notI)
  fix j assume j: "j < i" and k: "key_starts tag (drop j s)"
  from key_starts_underscore [OF k] have l0: "length tag < length s - j"
    and u0: "drop j s ! length tag = 95" by simp_all
  from l0 have l: "j + length tag < length s" by linarith
  then have "drop j s ! length tag = s ! (j + length tag)" by simp
  with u0 have u: "s ! (j + length tag) = 95" by simp
  have "j + length tag < length (take (i + length tag) s)" using j l by simp
  then have "take (i + length tag) s ! (j + length tag) \<in> set (take (i + length tag) s)"
    by (rule nth_mem)
  moreover have "take (i + length tag) s ! (j + length tag) = 95" using j u by simp
  ultimately show False using assms by simp
qed

subsection \<open>The round trip\<close>

lemma deobfuscate_obfuscated_text:
  assumes "\<forall>b \<in> set payload. b < 256"
  shows "deobfuscate (base64_encode (map (\<lambda>byte. byte XOR XOR_KEY) payload)) = payload"
  using deobfuscate_obfuscated [OF assms] by (simp add: deobfuscate_def)

lemma parse_obfuscated_url:
  assumes "35 \<notin> set base" and "37 \<notin> set base" and "\<forall>b \<in> set payload. b < 256"
  shows "parseCheckoutUrl (obfuscated_url base payload) =
           Inr \<lparr>sessionId = first_match (match_key (js ''cs'')) base,
                publicKey = first_match (match_key (js ''pk'')) payload,
                site = first_match match_site payload\<rparr>"
proof -
  let ?frag = "base64_encode (map (\<lambda>byte. byte XOR XOR_KEY) payload)"
  let ?url = "base @ 35 # ?frag"
  have u: "obfuscated_url base payload = ?url" by (simp add: obfuscated_url_def)
  have np: "37 \<notin> set ?url" using assms(2) base64_encode_plain(2) by simp
  have d: "decoded_or_raw ?url = ?url"
    by (simp add: decoded_or_raw_def decode_no_percent [OF np])
  have s: "first_match (match_key (js ''cs'')) ?url = first_match (match_key (js ''cs'')) base"
    by (rule first_match_before_hash) (simp_all add: js_def base64_encode_plain)
  have h: "after_hash ?url = Some ?frag" by (rule after_hash_append [OF assms(1)])
  have f: "decodeURIComponent ?frag = Some ?frag"
    by (simp add: decode_no_percent base64_encode_plain)
  show ?thesis
    by (simp add: u parseCheckoutUrl_value Let_def d s h f
        deobfuscate_obfuscated_text [OF assms(3)])
qed

text \<open>
  C6 as stated fails: the whole URL is percent-decoded before the fragment is cut, so an
  escaped \<open>#\<close> in the base moves the cut. With the base \<open>cs_test_a%23A\<close> the fragment
  becomes \<open>A#\<close> followed by the Base64 text; the decoder skips the \<open>#\<close>, the extra \<open>A\<close>
  shifts every group, and no key is found.
\<close>

theorem escaped_hash_in_base_counterexample:
  "first_key (js ''cs'') (js ''cs_test_a%23A'') (js ''cs_test_a'')
   \<and> first_key (js ''pk'') (js ''pk_test_a'') (js ''pk_test_a'')
   \<and> parseCheckoutUrl (obfuscated_url (js ''cs_test_a%23A'') (js ''pk_test_a''))
       = Inr \<lparr>sessionId = Some (js ''cs_test_a''), publicKey = None, site = None\<rparr>"
proof (intro conjI)
  show "first_key (js ''cs'') (js ''cs_test_a%23A'') (js ''cs_test_a'')"
    unfolding first_key_def
    by (rule exI [of _ 0])
       (simp add: is_key_def starts_with_def js_def is_alnum_def is_digit_def)
  show "first_key (js ''pk'') (js ''pk_test_a'') (js ''pk_test_a'')"
    unfolding first_key_def
    by (rule exI [of _ 0])
       (simp add: is_key_def starts_with_def js_def is_alnum_def is_digit_def)
  have url: "obfuscated_url (js ''cs_test_a%23A'') (js ''pk_test_a'')
             = js ''cs_test_a%23A#dW5acWB2cVpk''"
    by (simp add: obfuscated_url_def js_def XOR_KEY_def b64_char_def)
  have dec: "decoded_or_raw (js ''cs_test_a%23A#dW5acWB2cVpk'') = js ''cs_test_a#A#dW5acWB2cVpk''"
    by (simp add: decoded_or_raw_def js_def hex_val_def digit_val_def is_digit_def)
  have ses: "first_match (match_key (js ''cs'')) (js ''cs_test_a#A#dW5acWB2cVpk'')
             = Some (js ''cs_test_a'')"
    by (simp add: match_key_def js_def starts_with_def is_alnum_def is_digit_def)
  have cut: "after_hash (js ''cs_test_a#A#dW5acWB2cVpk'') = Some (js ''A#dW5acWB2cVpk'')"
    by (simp add: js_def)
  have pay: "deobfuscate (js ''A#dW5acWB2cVpk'') = [4, 208, 188, 108, 192, 132, 220, 192, 108]"
    by (simp add: deobfuscate_def base64_decode_def js_def b64_value_def low_byte_def XOR_KEY_def)
  have ne: "js ''cs_test_a%23A#dW5acWB2cVpk'' \<noteq> []" by (simp add: js_def)
  have dn: "decodeURIComponent (js ''A#dW5acWB2cVpk'') = Some (js ''A#dW5acWB2cVpk'')"
    by (rule decode_no_percent) (simp add: js_def)
  have pk: "first_match (match_key (js ''pk'')) [4, 208, 188, 108, 192, 132, 220, 192, 108] = None"
    by (simp add: match_key_def starts_with_def js_def)
  have st: "first_match match_site [4, 208, 188, 108, 192, 132, 220, 192, 108] = None"
    by (simp add: match_site_def starts_with_def js_def)
  show "parseCheckoutUrl (obfuscated_url (js ''cs_test_a%23A'') (js ''pk_test_a''))
       = Inr \<lparr>sessionId = Some (js ''cs_test_a''), publicKey = None, site = None\<rparr>"
    using ne
    by (simp add: url parseCheckoutUrl_value Let_def dec ses cut dn pay pk st
        del: first_match.simps)
qed

text \<open>
  C6, amended. For a base with no \<open>#\<close> and no \<open>%\<close> and a payload of bytes, the URL built
  as base, \<open>#\<close>, and the Base64 text of the payload XORed with the key parses to the first
  \<open>cs\<close> key of the base and the first \<open>pk\<close> key of the payload.
\<close>

theorem obfuscated_url_roundtrip:
  assumes "35 \<notin> set base" and "37 \<notin> set base" and "\<forall>b \<in> set payload. b < 256"
    and "first_key (js ''cs'') base sid" and "first_key (js ''pk'') payload pkey"
  shows "\<exists>r. parseCheckoutUrl (obfuscated_url base payload) = Inr r
             \<and> sessionId r = Some sid \<and> publicKey r = Some pkey"
  using parse_obfuscated_url [OF assms(1-3)] first_key_found [OF assms(4)]
    first_key_found [OF assms(5)]
  by simp

theorem obfuscated_url_roundtrip_witness:
  "35 \<notin> set (js ''x/cs_test_a1B2'') \<and> 37 \<notin> set (js ''x/cs_test_a1B2'')
   \<and> list_all (\<lambda>b. b < 256) (js ''{k:pk_test_51Abc}'')
   \<and> first_key (js ''cs'') (js ''x/cs_test_a1B2'') (js ''cs_test_a1B2'')
   \<and> first_key (js ''pk'') (js ''{k:pk_test_51Abc}'') (js ''pk_test_51Abc'')
   \<and> (\<exists>r. parseCheckoutUrl (obfuscated_url (js ''x/cs_test_a1B2'') (js ''{k:pk_test_51Abc}'')) = Inr r
          \<and> sessionId r = Some (js ''cs_test_a1B2'') \<and> publicKey r = Some (js ''pk_test_51Abc''))"
proof -
  have h1: "35 \<notin> set (js ''x/cs_test_a1B2'')" by (simp add: js_def)
  have h2: "37 \<notin> set (js ''x/cs_test_a1B2'')" by (simp add: js_def)
  have h3: "\<forall>b \<in> set (js ''{k:pk_test_51Abc}''). b < 256" by (simp add: js_def)
  have n4: "\<forall>j < 2. \<not> key_starts (js ''cs'') (drop j (js ''x/cs_test_a1B2''))"
    by (rule no_key_before) (simp add: js_def)
  have h4: "first_key (js ''cs'') (js ''x/cs_test_a1B2'') (js ''cs_test_a1B2'')"
    unfolding first_key_def
    by (rule exI [of _ 2], intro conjI n4)
       (simp_all add: is_key_def starts_with_def js_def is_alnum_def is_digit_def)
  have n5: "\<forall>j < 3. \<not> key_starts (js ''pk'') (drop j (js ''{k:pk_test_51Abc}''))"
    by (rule no_key_before) (simp add: js_def)
  have h5: "first_key (js ''pk'') (js ''{k:pk_test_51Abc}'') (js ''pk_test_51Abc'')"
    unfolding first_key_def
    by (rule exI [of _ 3], intro conjI n5)
       (simp_all add: is_key_def starts_with_def js_def is_alnum_def is_digit_def)
  have h3': "list_all (\<lambda>b. b < 256) (js ''{k:pk_test_51Abc}'')"
    using h3 by (simp add: list_all_iff)
  from obfuscated_url_roundtrip [OF h1 h2 h3 h4 h5] h1 h2 h3' h4 h5 show ?thesis by blast
qed

subsection \<open>No input makes the parser throw\<close>

lemma contains_key_iff: "contains_key tag s \<longleftrightarrow> first_match (match_key tag) s \<noteq> None"
  by (simp add: contains_key_def no_key_iff)

text \<open>
  C7. For every string, \<open>parseCheckoutUrl\<close> returns an object. Its session id is \<open>null\<close>
  exactly when the decoded URL holds no \<open>cs\<close> key. Its public key is \<open>null\<close> exactly when
  the input is empty, there is no \<open>#\<close>, decoding the fragment throws, or the payload holds
  no \<open>pk\<close> key; its site is \<open>null\<close> in the same cases, with the site pattern in place of
  the key.
\<close>

theorem parseCheckoutUrl_never_throws:
  "\<exists>r. parseCheckoutUrl url = Inr r
     \<and> (sessionId r = None \<longleftrightarrow> \<not> contains_key (js ''cs'') (decoded_or_raw url))
     \<and> (publicKey r = None \<longleftrightarrow>
          url = [] \<or> after_hash (decoded_or_raw url) = None
          \<or> (\<exists>f. after_hash (decoded_or_raw url) = Some f
                \<and> (decodeURIComponent f = None
                     \<or> (\<exists>g. decodeURIComponent f = Some g
                            \<and> \<not> contains_key (js ''pk'') (deobfuscate g)))))
     \<and> (site r = None \<longleftrightarrow>
          url = [] \<or> after_hash (decoded_or_raw url) = None
          \<or> (\<exists>f. after_hash (decoded_or_raw url) = Some f
                \<and> (decodeURIComponent f = None
                     \<or> (\<exists>g. decodeURIComponent f = Some g
                            \<and> first_match match_site (deobfuscate g) = None))))"
proof (cases "url = []")
  case True
  have "\<not> contains_key (js ''cs'') (decoded_or_raw [])"
    by (simp add: contains_key_iff decoded_or_raw_def match_key_needs_underscore)
  with True show ?thesis by (simp add: parseCheckoutUrl_value)
next
  case False
  let ?u = "decoded_or_raw url"
  show ?thesis
  proof (cases "after_hash ?u")
    case None
    with False show ?thesis
      by (simp add: parseCheckoutUrl_value Let_def contains_key_iff)
  next
    case (Some f)
    show ?thesis
    proof (cases "decodeURIComponent f")
      case None
      with False Some show ?thesis
        by (simp add: parseCheckoutUrl_value Let_def contains_key_iff)
    next
      case g: (Some g)
      with False Some show ?thesis
        by (simp add: parseCheckoutUrl_value Let_def contains_key_iff)
    qed
  qed
qed

theorem parseCheckoutUrl_never_throws_witness:
  "after_hash (decoded_or_raw (js ''cs_test_a#%'')) = Some (js ''%'')
   \<and> decodeURIComponent (js ''%'') = None
   \<and> contains_key (js ''cs'') (decoded_or_raw (js ''cs_test_a#%''))
   \<and> (\<exists>r. parseCheckoutUrl (js ''cs_test_a#%'') = Inr r
          \<and> sessionId r \<noteq> None \<and> publicKey r = None \<and> site r = None)"
proof -
  have d: "decoded_or_raw (js ''cs_test_a#%'') = js ''cs_test_a#%''"
    by (simp add: decoded_or_raw_def js_def)
  have a: "after_hash (decoded_or_raw (js ''cs_test_a#%'')) = Some (js ''%'')"
    unfolding d by (simp add: js_def)
  have t: "decodeURIComponent (js ''%'') = None" by (simp add: js_def)
  have k: "contains_key (js ''cs'') (decoded_or_raw (js ''cs_test_a#%''))"
    unfolding d contains_key_def
    by (rule exI [of _ 0])
       (simp add: key_starts_def starts_with_def js_def is_alnum_def is_digit_def)
  from parseCheckoutUrl_never_throws [of "js ''cs_test_a#%''"] a t k show ?thesis
    by auto
qed

section \<open>Properties of the payment attempt\<close>

subsection \<open>What one iteration costs\<close>

lemma createPaymentMethod_io:
  "createPaymentMethod w s = (out, s') \<Longrightarrow>
   pm_calls s' = Suc (pm_calls s) \<and> confirm_calls s' = confirm_calls s
   \<and> reconfirm_calls s' = reconfirm_calls s \<and> cards_made s' = cards_made s
   \<and> info_calls s' = info_calls s"
  by (auto simp: createPaymentMethod_def)

lemma confirmPayment_io:
  "confirmPayment w corrective a s = (out, s') \<Longrightarrow>
   pm_calls s' = pm_calls s \<and> cards_made s' = cards_made s \<and> info_calls s' = info_calls s
   \<and> confirm_calls s' = (if corrective then confirm_calls s else Suc (confirm_calls s))
   \<and> reconfirm_calls s' = (if corrective then Suc (reconfirm_calls s) else reconfirm_calls s)"
  by (auto simp: confirmPayment_def)

lemma fetchCheckoutInfo_io:
  "fetchCheckoutInfo w s = (out, s') \<Longrightarrow>
   pm_calls s' = pm_calls s \<and> confirm_calls s' = confirm_calls s
   \<and> reconfirm_calls s' = reconfirm_calls s \<and> cards_made s' = cards_made s
   \<and> info_calls s' = Suc (info_calls s)"
  by (auto simp: fetchCheckoutInfo_def)

lemma resolve_card_io:
  "resolve_card w src s = (out, s') \<Longrightarrow>
   pm_calls s' = pm_calls s \<and> confirm_calls s' = confirm_calls s
   \<and> reconfirm_calls s' = reconfirm_calls s \<and> info_calls s' = info_calls s
   \<and> cards_made s' \<le> Suc (cards_made s)"
  by (auto simp: resolve_card_def split: card_source.splits)

lemma mismatch_recovery_io:
  assumes "mismatch_recovery w a rd s = (out, s')"
  shows "pm_calls s' = pm_calls s \<and> confirm_calls s' = confirm_calls s
         \<and> cards_made s' = cards_made s
         \<and> reconfirm_calls s' \<le> Suc (reconfirm_calls s)
         \<and> info_calls s' \<le> Suc (info_calls s)"
  using assms
  by (auto simp: mismatch_recovery_def Let_def fetchCheckoutInfo_def confirmPayment_def
      split: if_splits sum.splits http_outcome.splits prod.splits)

lemma confirm_stage_io:
  assumes "confirm_stage w a n c pm s = (it, s')"
  shows "pm_calls s' = pm_calls s \<and> confirm_calls s' = Suc (confirm_calls s)
         \<and> cards_made s' = cards_made s
         \<and> reconfirm_calls s' \<le> Suc (reconfirm_calls s)
         \<and> info_calls s' \<le> Suc (info_calls s)"
proof -
  obtain out s1 where c: "confirmPayment w False a s = (out, s1)" by (cases "confirmPayment w False a s")
  note c1 = confirmPayment_io [OF c]
  show ?thesis
  proof (cases out)
    case (Rejected msg)
    with assms c c1 show ?thesis by (simp add: confirm_stage_def)
  next
    case (Resolved sc rd)
    show ?thesis
    proof (cases "read_prop rd (js ''error'')")
      case (Inl msg)
      with assms c c1 Resolved show ?thesis by (simp add: confirm_stage_def)
    next
      case (Inr e)
      obtain out2 s2 where m: "mismatch_recovery w a rd s1 = (out2, s2)"
        by (cases "mismatch_recovery w a rd s1")
      note m1 = mismatch_recovery_io [OF m]
      from assms c Resolved Inr m have "s' = s2"
        by (auto simp: confirm_stage_def split: sum.splits)
      with c1 m1 show ?thesis by simp
    qed
  qed
qed

lemma classify_attempts: "classify n c pm sc rd = Returned r \<Longrightarrow> attempts r = n"
  by (auto simp: classify_def declined_result_def approved_result_def Let_def split: if_splits)

lemma confirm_stage_attempts:
  "confirm_stage w a n c pm s = (Returned r, s') \<Longrightarrow> attempts r = n"
  by (auto simp: confirm_stage_def classify_attempts
      split: prod.splits http_outcome.splits sum.splits)

lemma try_body_io:
  assumes "try_body w a n c s = (it, s')"
  shows "pm_calls s' = Suc (pm_calls s) \<and> confirm_calls s' \<le> Suc (confirm_calls s)
         \<and> cards_made s' = cards_made s
         \<and> reconfirm_calls s' + confirm_calls s \<le> reconfirm_calls s + confirm_calls s'
         \<and> info_calls s' + confirm_calls s \<le> info_calls s + confirm_calls s'"
proof -
  obtain out s1 where c: "createPaymentMethod w s = (out, s1)"
    by (cases "createPaymentMethod w s")
  note c1 = createPaymentMethod_io [OF c]
  show ?thesis
  proof (cases out)
    case (Rejected msg)
    with assms c have "s' = s1" by (simp add: try_body_def)
    with c1 show ?thesis by simp
  next
    case (Resolved st d)
    show ?thesis
    proof (cases "pm_failed st d")
      case (Inl msg)
      with assms c Resolved have "s' = s1" by (simp add: try_body_def)
      with c1 show ?thesis by simp
    next
      case (Inr failed)
      show ?thesis
      proof (cases failed)
        case True
        with assms c Resolved Inr have "s' = s1"
          by (auto simp: try_body_def split: sum.splits)
        with c1 show ?thesis by simp
      next
        case False
        with assms c Resolved Inr have "confirm_stage w a n c d s1 = (it, s')"
          by (simp add: try_body_def)
        from confirm_stage_io [OF this] c1 show ?thesis by simp
      qed
    qed
  qed
qed

lemma try_body_attempts: "try_body w a n c s = (Returned r, s') \<Longrightarrow> attempts r = n"
  by (auto simp: try_body_def confirm_stage_attempts
      split: prod.splits http_outcome.splits sum.splits bool.splits if_splits)

subsection \<open>The loop\<close>

lemma attempt_loop_bound:
  assumes "attempt_loop w src a (Num (int N)) n le s = (res, s')" and "n \<le> N + 1"
  shows "pm_calls s' + n \<le> pm_calls s + N + 1
         \<and> cards_made s' + n \<le> cards_made s + N + 1
         \<and> confirm_calls s' + pm_calls s \<le> confirm_calls s + pm_calls s'
         \<and> reconfirm_calls s' + confirm_calls s \<le> reconfirm_calls s + confirm_calls s'
         \<and> info_calls s' + confirm_calls s \<le> info_calls s + confirm_calls s'
         \<and> (\<forall>r. res = Inr r \<longrightarrow> 1 \<le> attempts r \<and> n \<le> attempts r \<and> attempts r \<le> N + 1)"
  using assms
proof (induction w src a "Num (int N)" n le s arbitrary: res s' rule: attempt_loop.induct)
  case (1 w src a n le s)
  show ?case
  proof (cases "n \<le> N")
    case False
    with 1(2,3) have "res = Inr (createDetailedResponse n le)" "s' = s" "n = N + 1"
      by (simp_all add: attempt_loop.simps)
    then show ?thesis by (simp add: createDetailedResponse_def)
  next
    case True
    then have run: "num_le (Num (int n)) (Num (int N))" by simp
    obtain rc s1 where rc: "resolve_card w src s = (rc, s1)" by (cases "resolve_card w src s")
    note r1 = resolve_card_io [OF rc]
    show ?thesis
    proof (cases rc)
      case (Inl msg)
      with 1(2) run rc have "res = Inl (FactoryThrew msg)" "s' = s1"
        by (simp_all add: attempt_loop.simps)
      with r1 True show ?thesis by simp
    next
      case (Inr c)
      obtain it s2 where tb: "try_body w a (Suc n) c s1 = (it, s2)"
        by (cases "try_body w a (Suc n) c s1")
      note t1 = try_body_io [OF tb]
      show ?thesis
      proof (cases it)
        case (Returned r)
        with 1(2) run rc Inr tb have "res = Inr r" "s' = s2"
          by (simp_all add: attempt_loop.simps)
        moreover have "attempts r = Suc n" using tb Returned try_body_attempts by blast
        ultimately show ?thesis using r1 t1 True by simp
      next
        case (NextTry e)
        with 1(2) run rc Inr tb
        have rec: "attempt_loop w src a (Num (int N)) (Suc n) e s2 = (res, s')"
          by (simp add: attempt_loop.simps)
        have "Suc n \<le> N + 1" using True by simp
        from 1(1) [OF run rc [symmetric] Inr tb [symmetric] NextTry rec this] r1 t1
        show ?thesis by auto
      qed
    qed
  qed
qed

lemma attempt_loop_returns:
  assumes "\<forall>i. \<exists>c. card_factory w i = Inr c"
  shows "\<exists>r. fst (attempt_loop w src a retries n le s) = Inr r"
  using assms
proof (induction w src a retries n le s rule: attempt_loop.induct)
  case (1 w src a retries n le s)
  show ?case
  proof (cases "num_le (Num (int n)) retries")
    case False
    then show ?thesis by (simp add: attempt_loop.simps)
  next
    case True
    obtain rc s1 where rc: "resolve_card w src s = (rc, s1)" by (cases "resolve_card w src s")
    have "\<exists>c. rc = Inr c"
      using rc 1(2) by (auto simp: resolve_card_def split: card_source.splits)
    then obtain c where c: "rc = Inr c" by blast
    obtain it s2 where tb: "try_body w a (Suc n) c s1 = (it, s2)"
      by (cases "try_body w a (Suc n) c s1")
    show ?thesis
    proof (cases it)
      case (Returned r)
      with True rc c tb show ?thesis by (simp add: attempt_loop.simps)
    next
      case (NextTry e)
      from 1(1) [OF True rc [symmetric] c tb [symmetric] NextTry 1(2)]
      show ?thesis using True rc c tb NextTry by (simp add: attempt_loop.simps)
    qed
  qed
qed

lemma match_key_nonempty: "match_key tag s = Some t \<Longrightarrow> t \<noteq> []"
  by (auto simp: match_key_eq split: if_splits)

lemma first_match_origin: "first_match m s = Some t \<Longrightarrow> \<exists>s'. m s' = Some t"
  by (induction s) (auto split: option.splits)

lemma first_key_nonempty: "first_match (match_key tag) s \<noteq> Some []"
  using first_match_origin match_key_nonempty by blast

lemma parsed_keys_nonempty:
  assumes "parseCheckoutUrl url = Inr p"
  shows "sessionId p \<noteq> Some []" and "publicKey p \<noteq> Some []"
proof -
  show "sessionId p \<noteq> Some []"
    using assms first_key_nonempty [of "js ''cs''"]
    by (auto simp: parseCheckoutUrl_value Let_def split: if_splits)
  show "publicKey p \<noteq> Some []"
    using assms first_key_nonempty [of "js ''pk''"]
    by (auto simp: parseCheckoutUrl_value Let_def split: if_splits option.splits)
qed

lemma attemptPayment_unfold:
  assumes "parseCheckoutUrl url = Inr p" and "sessionId p \<noteq> None" and "publicKey p \<noteq> None"
    and "info_response w 0 = Inr info"
  shows "attemptPayment w url src retries =
           attempt_loop w src (expectedAmountOf info) retries 0 JNull (io0\<lparr>info_calls := 1\<rparr>)"
proof -
  have "sessionId p \<notin> {None, Some []}" "publicKey p \<notin> {None, Some []}"
    using assms(2,3) parsed_keys_nonempty [OF assms(1)] by simp_all
  then show ?thesis
    using assms(1,4) by (auto simp: attemptPayment_def fetchCheckoutInfo_def io0_def)
qed

lemma attemptPayment_cases:
  "(\<exists>e s. attemptPayment w url src retries = (Inl e, s) \<and> pm_calls s = 0 \<and> confirm_calls s = 0
           \<and> reconfirm_calls s = 0 \<and> cards_made s = 0)
   \<or> (\<exists>a s. attemptPayment w url src retries = attempt_loop w src a retries 0 JNull s
           \<and> pm_calls s = 0 \<and> confirm_calls s = 0 \<and> reconfirm_calls s = 0 \<and> cards_made s = 0)"
proof (cases "parseCheckoutUrl url")
  case (Inl u)
  then have "attemptPayment w url src retries = (Inl (ParserThrew u), io0)"
    by (simp add: attemptPayment_def)
  then show ?thesis by (simp add: io0_def)
next
  case (Inr p)
  show ?thesis
  proof (cases "sessionId p \<in> {None, Some []} \<or> publicKey p \<in> {None, Some []}")
    case True
    with Inr have "attemptPayment w url src retries = (Inl CannotExtract, io0)"
      by (simp add: attemptPayment_def)
    then show ?thesis by (simp add: io0_def)
  next
    case False
    show ?thesis
    proof (cases "info_response w 0")
      case (Inl msg)
      with Inr False
      have "attemptPayment w url src retries = (Inl (InfoFailed msg), io0\<lparr>info_calls := 1\<rparr>)"
        by (auto simp: attemptPayment_def fetchCheckoutInfo_def io0_def)
      then show ?thesis by (simp add: io0_def)
    next
      case info: (Inr info)
      with Inr False
      have "attemptPayment w url src retries =
              attempt_loop w src (expectedAmountOf info) retries 0 JNull (io0\<lparr>info_calls := 1\<rparr>)"
        by (auto simp: attemptPayment_def fetchCheckoutInfo_def io0_def)
      moreover have "pm_calls (io0\<lparr>info_calls := 1\<rparr>) = 0" "confirm_calls (io0\<lparr>info_calls := 1\<rparr>) = 0"
        "reconfirm_calls (io0\<lparr>info_calls := 1\<rparr>) = 0" "cards_made (io0\<lparr>info_calls := 1\<rparr>) = 0"
        by (simp_all add: io0_def)
      ultimately show ?thesis by blast
    qed
  qed
qed

subsection \<open>Evaluating the sample worlds\<close>

lemma sample_base_key: "first_key (js ''cs'') (js ''x/cs_test_a1B2'') (js ''cs_test_a1B2'')"
proof -
  have n: "\<forall>j < 2. \<not> key_starts (js ''cs'') (drop j (js ''x/cs_test_a1B2''))"
    by (rule no_key_before) (simp add: js_def)
  show ?thesis
    unfolding first_key_def
    by (rule exI [of _ 2], intro conjI n)
       (simp_all add: is_key_def starts_with_def js_def is_alnum_def is_digit_def)
qed

lemma sample_payload_key: "first_key (js ''pk'') (js ''{k:pk_test_51Abc}'') (js ''pk_test_51Abc'')"
proof -
  have n: "\<forall>j < 3. \<not> key_starts (js ''pk'') (drop j (js ''{k:pk_test_51Abc}''))"
    by (rule no_key_before) (simp add: js_def)
  show ?thesis
    unfolding first_key_def
    by (rule exI [of _ 3], intro conjI n)
       (simp_all add: is_key_def starts_with_def js_def is_alnum_def is_digit_def)
qed

lemma sample_url_parsed:
  "\<exists>p. parseCheckoutUrl sample_url = Inr p \<and> sessionId p \<noteq> None \<and> publicKey p \<noteq> None"
proof -
  have "parseCheckoutUrl sample_url =
          Inr \<lparr>sessionId = first_match (match_key (js ''cs'')) (js ''x/cs_test_a1B2''),
               publicKey = first_match (match_key (js ''pk'')) (js ''{k:pk_test_51Abc}''),
               site = first_match match_site (js ''{k:pk_test_51Abc}'')\<rparr>"
    unfolding sample_url_def by (rule parse_obfuscated_url) (simp_all add: js_def)
  then show ?thesis
    by (simp add: first_key_found [OF sample_base_key] first_key_found [OF sample_payload_key])
qed

lemma double_of_exact: "\<bar>x\<bar> < 2 ^ 53 \<Longrightarrow> double_of x = Finite x"
proof -
  assume a: "\<bar>x\<bar> < 2 ^ 53"
  then have n: "nat \<bar>x\<bar> < 2 ^ 53" by (simp add: nat_less_iff)
  then have r: "round_significand (nat \<bar>x\<bar>) = nat \<bar>x\<bar>"
    by (simp add: round_significand_def)
  have "(2 :: nat) ^ 53 \<le> 2 ^ 1024" by (rule power_increasing) simp_all
  with n have "\<not> (2 :: nat) ^ 1024 \<le> nat \<bar>x\<bar>" by linarith
  then show ?thesis by (simp add: double_of_def r Let_def)
qed

lemma num_add_small:
  "\<bar>a + b\<bar> < 2 ^ 53 \<Longrightarrow> num_add (Finite a) (Finite b) = Finite (a + b)"
  by (simp add: num_add_def double_of_exact)

lemma num_mul_small:
  "\<bar>a * b\<bar> < 2 ^ 53 \<Longrightarrow> num_mul (Finite a) (Finite b) = Finite (a * b)"
  by (simp add: num_mul_def double_of_exact)

lemma sample_amounts:
  "expectedAmountOf sample_info = Finite 1200" "expectedAmountOf updated_info = Finite 1500"
  by (simp_all add: expectedAmountOf_def sample_info_def updated_info_def itemAmount_def
      double_of_exact num_add_small)

lemma sample_run:
  "info_response w 0 = Inr sample_info \<Longrightarrow>
   attemptPayment w sample_url src retries =
     attempt_loop w src (Finite 1200) retries 0 JNull (io0\<lparr>info_calls := 1\<rparr>)"
  using sample_url_parsed attemptPayment_unfold sample_amounts(1) by metis

lemma created_pm_ok: "pm_failed 200 created_pm = Inr False"
  by (simp add: pm_failed_def read_prop_def created_pm_def js_def)

lemma mismatch_body_reads:
  "read_prop mismatch_body (js ''error'')
     = Inr (JObj [(js ''code'', JStr (js ''checkout_amount_mismatch''))])"
  "truthy (get_prop mismatch_body (js ''error''))"
  "get_prop (get_prop mismatch_body (js ''error'')) (js ''code'')
     = JStr (js ''checkout_amount_mismatch'')"
  by (simp_all add: read_prop_def mismatch_body_def js_def)

lemma merged_body:
  "object_assign mismatch_body complete_body =
     JObj [(js ''error'', JObj [(js ''code'', JStr (js ''checkout_amount_mismatch''))]),
           (js ''status'', JStr (js ''complete''))]"
  by (simp add: object_assign_def mismatch_body_def complete_body_def own_entries_def
      assign_entry_def js_def)

lemma merged_body_has_error: "hasError (object_assign mismatch_body complete_body)"
  unfolding merged_body by (simp add: hasError_def js_def)

subsection \<open>An iteration that sees a decline\<close>

lemma iteration_declined:
  assumes run: "num_le (Num (int n)) retries"
    and card: "resolve_card w src s = (Inr c, s1)"
    and pm: "createPaymentMethod w s1 = (Resolved 200 pmData, s2)"
    and ok: "pm_failed 200 pmData = Inr False"
    and cf: "confirmPayment w False a s2 = (Resolved sc rd, s3)"
    and rec: "mismatch_recovery w a rd s3 = (Inr merged, s4)"
    and dec: "isDeclined merged \<or> hasError merged"
    and obj: "rd \<noteq> JNull" "rd \<noteq> JUndefined"
  shows "attempt_loop w src a retries n le s = (Inr (declined_result (Suc n) c merged), s4)"
proof -
  from obj obtain e where e: "read_prop rd (js ''error'') = Inr e"
    by (cases rd) (simp_all add: read_prop_def)
  have "classify (Suc n) c pmData sc merged = Returned (declined_result (Suc n) c merged)"
    using dec by (simp add: classify_def)
  then have "confirm_stage w a (Suc n) c pmData s2 = (Returned (declined_result (Suc n) c merged), s4)"
    using cf e rec by (simp add: confirm_stage_def)
  then have "try_body w a (Suc n) c s1 = (Returned (declined_result (Suc n) c merged), s4)"
    using pm ok by (simp add: try_body_def)
  then show ?thesis
    using run card by (simp add: attempt_loop.simps)
qed

lemma iteration_recovery_throws:
  assumes run: "num_le (Num (int n)) retries"
    and card: "resolve_card w src s = (Inr c, s1)"
    and pm: "createPaymentMethod w s1 = (Resolved 200 pmData, s2)"
    and ok: "pm_failed 200 pmData = Inr False"
    and cf: "confirmPayment w False a s2 = (Resolved sc rd, s3)"
    and rd: "read_prop rd (js ''error'') = Inr e"
    and rec: "mismatch_recovery w a rd s3 = (Inl msg, s4)"
  shows "attempt_loop w src a retries n le s
           = attempt_loop w src a retries (Suc n) (caught msg) s4"
proof -
  have "confirm_stage w a (Suc n) c pmData s2 = (NextTry (caught msg), s4)"
    using cf rd rec by (simp add: confirm_stage_def)
  then have "try_body w a (Suc n) c s1 = (NextTry (caught msg), s4)"
    using pm ok by (simp add: try_body_def)
  then show ?thesis
    using run card by (subst attempt_loop.simps) simp
qed

lemma decline_needs_object:
  assumes "mismatch_recovery w a rd s = (Inr merged, s')"
    and "isDeclined merged \<or> hasError merged"
  shows "rd \<noteq> JNull \<and> rd \<noteq> JUndefined"
proof -
  have m: "\<exists>kvs. merged = JObj kvs"
    using assms(2) by (cases merged) (auto simp: isDeclined_def hasError_def)
  have "merged = rd \<or> (\<exists>body. merged = object_assign rd body)"
    using assms(1)
    by (auto simp: mismatch_recovery_def Let_def
        split: if_splits prod.splits sum.splits http_outcome.splits)
  then show ?thesis
    using m by (auto simp: object_assign_def)
qed

subsection \<open>The retry bound\<close>

text \<open>
  C1. For every world, URL, card or factory and every \<open>N \<ge> 0\<close>, a call of \<open>attemptPayment\<close>
  with \<open>retries = N\<close> makes at most \<open>N + 1\<close> create-payment-method calls, at most one
  first confirm per create and at most one corrective confirm per first confirm, and a
  returned result has \<open>attempts\<close> between 1 and \<open>N + 1\<close>. The call returns a result
  whenever the URL yields both identifiers, the session is fetched and the factory
  does not throw.
\<close>

theorem attemptPayment_retry_bound:
  fixes N :: nat
  shows "pm_calls (snd (attemptPayment w url src (Num (int N)))) \<le> N + 1
     \<and> cards_made (snd (attemptPayment w url src (Num (int N)))) \<le> N + 1
     \<and> confirm_calls (snd (attemptPayment w url src (Num (int N))))
         \<le> pm_calls (snd (attemptPayment w url src (Num (int N))))
     \<and> reconfirm_calls (snd (attemptPayment w url src (Num (int N))))
         \<le> confirm_calls (snd (attemptPayment w url src (Num (int N))))
     \<and> (\<forall>r. fst (attemptPayment w url src (Num (int N))) = Inr r
            \<longrightarrow> 1 \<le> attempts r \<and> attempts r \<le> N + 1)
     \<and> ((\<exists>p. parseCheckoutUrl url = Inr p \<and> sessionId p \<noteq> None \<and> publicKey p \<noteq> None)
          \<and> (\<exists>info. info_response w 0 = Inr info) \<and> (\<forall>i. \<exists>c. card_factory w i = Inr c)
        \<longrightarrow> (\<exists>r. fst (attemptPayment w url src (Num (int N))) = Inr r))"
proof -
  let ?run = "attemptPayment w url src (Num (int N))"
  have bounds: "pm_calls (snd ?run) \<le> N + 1 \<and> cards_made (snd ?run) \<le> N + 1
     \<and> confirm_calls (snd ?run) \<le> pm_calls (snd ?run)
     \<and> reconfirm_calls (snd ?run) \<le> confirm_calls (snd ?run)
     \<and> (\<forall>r. fst ?run = Inr r \<longrightarrow> 1 \<le> attempts r \<and> attempts r \<le> N + 1)"
  proof -
    from attemptPayment_cases [of w url src "Num (int N)"]
    consider (thrown) e s where "?run = (Inl e, s)" "pm_calls s = 0" "confirm_calls s = 0"
        "reconfirm_calls s = 0" "cards_made s = 0"
      | (loop) a s where "?run = attempt_loop w src a (Num (int N)) 0 JNull s" "pm_calls s = 0"
        "confirm_calls s = 0" "reconfirm_calls s = 0" "cards_made s = 0"
      by blast
    then show ?thesis
    proof cases
      case thrown
      then show ?thesis by simp
    next
      case loop
      obtain res s' where l: "attempt_loop w src a (Num (int N)) 0 JNull s = (res, s')"
        by (cases "attempt_loop w src a (Num (int N)) 0 JNull s")
      from attempt_loop_bound [OF l] loop l show ?thesis by simp
    qed
  qed
  have returns: "\<exists>r. fst ?run = Inr r"
    if "\<exists>p. parseCheckoutUrl url = Inr p \<and> sessionId p \<noteq> None \<and> publicKey p \<noteq> None"
      and "\<exists>info. info_response w 0 = Inr info" and "\<forall>i. \<exists>c. card_factory w i = Inr c"
  proof -
    from that(1,2) obtain p info where "parseCheckoutUrl url = Inr p" "sessionId p \<noteq> None"
      "publicKey p \<noteq> None" "info_response w 0 = Inr info" by blast
    from attemptPayment_unfold [OF this] attempt_loop_returns [OF that(3)]
    show ?thesis by simp
  qed
  from bounds returns show ?thesis by blast
qed

theorem attemptPayment_retry_bound_witness:
  "(\<exists>p. parseCheckoutUrl sample_url = Inr p \<and> sessionId p \<noteq> None \<and> publicKey p \<noteq> None)
   \<and> (\<exists>info. info_response declining_world 0 = Inr info)
   \<and> (\<forall>i. \<exists>c. card_factory declining_world i = Inr c)
   \<and> (\<exists>r. fst (attemptPayment declining_world sample_url Factory (Num (int 2))) = Inr r
          \<and> 1 \<le> attempts r \<and> attempts r \<le> 2 + 1)"
proof -
  have h2: "\<exists>info. info_response declining_world 0 = Inr info"
    by (simp add: declining_world_def)
  have h3: "\<forall>i. \<exists>c. card_factory declining_world i = Inr c"
    by (simp add: declining_world_def)
  note t = attemptPayment_retry_bound [of declining_world sample_url Factory 2]
  from t sample_url_parsed h2 h3
  obtain r where r: "fst (attemptPayment declining_world sample_url Factory (Num (int 2))) = Inr r"
    by blast
  with t have "1 \<le> attempts r \<and> attempts r \<le> 2 + 1" by blast
  with r sample_url_parsed h2 h3 show ?thesis by blast
qed

subsection \<open>The expected amount\<close>

lemma confirmPayment_sent:
  "confirmPayment w corrective x s = (out, s') \<Longrightarrow> sent_amounts s' = sent_amounts s @ [x]"
  by (auto simp: confirmPayment_def)

lemma mismatch_recovery_sent:
  "mismatch_recovery w a rd s = (out, s') \<Longrightarrow> \<exists>extra. sent_amounts s' = sent_amounts s @ extra"
  by (auto simp: mismatch_recovery_def Let_def fetchCheckoutInfo_def confirmPayment_def
      split: if_splits sum.splits http_outcome.splits prod.splits)

lemma confirm_stage_sent:
  assumes "confirm_stage w a n c pm s = (it, s')"
  shows "\<exists>extra. sent_amounts s' = sent_amounts s @ a # extra"
proof -
  obtain out s1 where c: "confirmPayment w False a s = (out, s1)"
    by (cases "confirmPayment w False a s")
  note c1 = confirmPayment_sent [OF c]
  show ?thesis
  proof (cases out)
    case (Rejected msg)
    with assms c c1 show ?thesis by (simp add: confirm_stage_def)
  next
    case (Resolved sc rd)
    show ?thesis
    proof (cases "read_prop rd (js ''error'')")
      case (Inl msg)
      with assms c c1 Resolved show ?thesis by (simp add: confirm_stage_def)
    next
      case (Inr e)
      obtain out2 s2 where m: "mismatch_recovery w a rd s1 = (out2, s2)"
        by (cases "mismatch_recovery w a rd s1")
      from assms c Resolved Inr m have "s' = s2"
        by (auto simp: confirm_stage_def split: sum.splits)
      with c1 mismatch_recovery_sent [OF m] show ?thesis by auto
    qed
  qed
qed

lemma try_body_sent:
  assumes "try_body w a n c s = (it, s')"
  shows "\<exists>extra. sent_amounts s' = sent_amounts s @ extra \<and> (extra = [] \<or> hd extra = a)"
proof -
  obtain out s1 where c: "createPaymentMethod w s = (out, s1)"
    by (cases "createPaymentMethod w s")
  then have c1: "sent_amounts s1 = sent_amounts s" by (auto simp: createPaymentMethod_def)
  show ?thesis
  proof (cases out)
    case (Rejected msg)
    with assms c have "s' = s1" by (simp add: try_body_def)
    with c1 show ?thesis by simp
  next
    case (Resolved st d)
    show ?thesis
    proof (cases "pm_failed st d")
      case (Inl msg)
      with assms c Resolved have "s' = s1" by (simp add: try_body_def)
      with c1 show ?thesis by simp
    next
      case (Inr failed)
      show ?thesis
      proof (cases failed)
        case True
        with assms c Resolved Inr have "s' = s1"
          by (auto simp: try_body_def split: sum.splits)
        with c1 show ?thesis by simp
      next
        case False
        with assms c Resolved Inr have "confirm_stage w a n c d s1 = (it, s')"
          by (simp add: try_body_def)
        from confirm_stage_sent [OF this] c1 show ?thesis by auto
      qed
    qed
  qed
qed

lemma attempt_loop_sent:
  "\<exists>extra. sent_amounts (snd (attempt_loop w src a retries n le s)) = sent_amounts s @ extra
           \<and> (extra = [] \<or> hd extra = a)"
proof (induction w src a retries n le s rule: attempt_loop.induct)
  case (1 w src a retries n le s)
  show ?case
  proof (cases "num_le (Num (int n)) retries")
    case False
    then show ?thesis by (simp add: attempt_loop.simps)
  next
    case True
    obtain rc s1 where rc: "resolve_card w src s = (rc, s1)" by (cases "resolve_card w src s")
    then have r1: "sent_amounts s1 = sent_amounts s"
      by (auto simp: resolve_card_def split: card_source.splits)
    show ?thesis
    proof (cases rc)
      case (Inl msg)
      with True rc r1 show ?thesis by (simp add: attempt_loop.simps)
    next
      case (Inr c)
      obtain it s2 where tb: "try_body w a (Suc n) c s1 = (it, s2)"
        by (cases "try_body w a (Suc n) c s1")
      from try_body_sent [OF tb] r1 obtain e1 where
        e1: "sent_amounts s2 = sent_amounts s @ e1" "e1 = [] \<or> hd e1 = a" by auto
      show ?thesis
      proof (cases it)
        case (Returned r)
        with True rc Inr tb e1 show ?thesis by (simp add: attempt_loop.simps)
      next
        case (NextTry e)
        from 1 [OF True rc [symmetric] Inr tb [symmetric] NextTry]
        obtain e2 where e2: "sent_amounts (snd (attempt_loop w src a retries (Suc n) e s2))
            = sent_amounts s2 @ e2" "e2 = [] \<or> hd e2 = a" by blast
        have "snd (attempt_loop w src a retries n le s)
              = snd (attempt_loop w src a retries (Suc n) e s2)"
          using True rc Inr tb NextTry by (simp add: attempt_loop.simps)
        with e1 e2 have "sent_amounts (snd (attempt_loop w src a retries n le s))
            = sent_amounts s @ (e1 @ e2)" by simp
        moreover have "e1 @ e2 = [] \<or> hd (e1 @ e2) = a"
          using e1(2) e2(2) by (cases e1) auto
        ultimately show ?thesis by blast
      qed
    qed
  qed
qed

lemma first_amount_sent:
  assumes "parseCheckoutUrl url = Inr p" and "sessionId p \<noteq> None" and "publicKey p \<noteq> None"
    and "info_response w 0 = Inr info"
  shows "case sent_amounts (snd (attemptPayment w url src retries)) of
           [] \<Rightarrow> True
         | x # rest \<Rightarrow> x = expectedAmountOf info"
proof -
  from attempt_loop_sent [of w src "expectedAmountOf info" retries 0 JNull "io0\<lparr>info_calls := 1\<rparr>"]
  obtain extra where "sent_amounts (snd (attemptPayment w url src retries)) = extra"
    "extra = [] \<or> hd extra = expectedAmountOf info"
    unfolding attemptPayment_unfold [OF assms] by (auto simp: io0_def)
  then show ?thesis by (cases extra) auto
qed

lemma bit_length_range: "2 ^ k \<le> n \<Longrightarrow> n < 2 ^ Suc k \<Longrightarrow> bit_length n = Suc k"
proof (induction k arbitrary: n)
  case 0
  then have "n = 1" by simp
  then show ?case by (simp add: bit_length.simps)
next
  case (Suc k)
  from Suc.prems have "2 ^ k \<le> n div 2" "n div 2 < 2 ^ Suc k" by simp_all
  then have "bit_length (n div 2) = Suc k" by (rule Suc.IH)
  moreover from Suc.prems have "n \<noteq> 0" by auto
  ultimately show ?case by (subst bit_length.simps) simp
qed

text \<open>Beyond \<open>2 ^ 53\<close> a sum is rounded: \<open>2 ^ 53 + 1\<close> is \<open>2 ^ 53\<close>.\<close>

lemma rounding_example: "num_add (Finite (2 ^ 53)) (Finite 1) = Finite (2 ^ 53)"
proof -
  have b: "bit_length (2 ^ 53 + 1) = Suc 53" by (rule bit_length_range) simp_all
  have r: "round_significand (2 ^ 53 + 1) = 2 ^ 53"
    unfolding round_significand_def b Let_def by simp
  from r show ?thesis
    by (simp add: num_add_def double_of_def Let_def)
qed

lemma discounted_amount: "expectedAmountOf discounted_info = Finite 1000"
  by (simp add: expectedAmountOf_def discounted_info_def itemAmount_def double_of_exact
      num_add_small num_mul_small)

lemma discount_run:
  "attemptPayment discount_world sample_url (Literal sample_card) (Num 0) =
     (Inr (approved_result 1 sample_card created_pm complete_body),
      \<lparr>cards_made = 0, pm_calls = 1, confirm_calls = 1, reconfirm_calls = 0, info_calls = 1,
       sent_amounts = [Finite 1000]\<rparr>)"
proof -
  have i: "info_response discount_world 0 = Inr discounted_info"
    by (simp add: discount_world_def)
  from sample_url_parsed obtain p where p: "parseCheckoutUrl sample_url = Inr p"
    "sessionId p \<noteq> None" "publicKey p \<noteq> None" by blast
  have c: "isComplete complete_body" "\<not> isDeclined complete_body" "\<not> hasError complete_body"
    "read_prop complete_body (js ''error'') = Inr JUndefined"
    "get_prop complete_body (js ''error'') = JUndefined"
    by (simp_all add: isComplete_def isDeclined_def hasError_def read_prop_def complete_body_def
        js_def)
  show ?thesis
    unfolding attemptPayment_unfold [OF p i] discounted_amount
    by (subst attempt_loop.simps)
       (simp add: resolve_card_def try_body_def createPaymentMethod_def discount_world_def
          created_pm_ok confirm_stage_def confirmPayment_def c mismatch_recovery_def
          classify_def io0_def)
qed

text \<open>
  C2 fails on the code. A line item is \<open>{amount: 0, unitAmount: 500, quantity: 2}\<close> (an
  item discounted to nothing) and \<open>totals.total\<close> is 0: the amounts of the line items
  sum to 0, and the code computes 1000, which is what the confirm call sends. The item
  amount is read with \<open>item.amount ||\<close>, which takes 0 for missing, while
  \<open>normalizeLineItems\<close> keeps a 0 with \<open>??\<close>; the comment above the computation says to use
  the invoice amount. The scenario of the specification (500 and 700) gives 1200.
\<close>

theorem zero_amount_item_charged_by_unit:
  "lineItems discounted_info = [\<lparr>amount = Some 0, unitAmount = Some 500, quantity = Some 2\<rparr>]
   \<and> totals_total discounted_info = Some 0
   \<and> sum_list (map listed_amount (lineItems discounted_info)) = 0
   \<and> expectedAmountOf discounted_info = Finite 1000
   \<and> info_response discount_world 0 = Inr discounted_info
   \<and> sent_amounts
        (snd (attemptPayment discount_world sample_url (Literal sample_card) (Num 0)))
       = [Finite 1000]
   \<and> expectedAmountOf sample_info = Finite 1200"
  unfolding discount_run
  by (simp add: discounted_info_def listed_amount_def discounted_amount [unfolded discounted_info_def]
      discount_world_def sample_amounts)


subsection \<open>A decline ends the attempt\<close>

lemma mismatch_body_has_error: "hasError mismatch_body"
  by (simp add: hasError_def mismatch_body_reads)

lemma broken_refetch_run:
  "attempt_loop broken_refetch_world (Literal sample_card) (Finite 1200) (Num 1) 0 JNull
     (io0\<lparr>info_calls := 1\<rparr>) =
   (Inr (createDetailedResponse 2 (caught (js ''timeout''))),
    \<lparr>cards_made = 0, pm_calls = 2, confirm_calls = 2, reconfirm_calls = 0, info_calls = 3,
     sent_amounts = [Finite 1200, Finite 1200]\<rparr>)"
  apply (subst attempt_loop.simps)
  apply (simp add: resolve_card_def try_body_def createPaymentMethod_def broken_refetch_world_def
      created_pm_ok confirm_stage_def confirmPayment_def mismatch_body_reads
      mismatch_recovery_def fetchCheckoutInfo_def io0_def)
  apply (subst attempt_loop.simps)
  apply (simp add: resolve_card_def try_body_def createPaymentMethod_def
      created_pm_ok confirm_stage_def confirmPayment_def mismatch_body_reads
      mismatch_recovery_def fetchCheckoutInfo_def)
  apply (subst attempt_loop.simps)
  apply (simp add: numeral_2_eq_2)
  done

text \<open>
  C4 as stated fails: an error object whose code is \<open>checkout_amount_mismatch\<close> starts the
  recovery first, and when fetching the session again throws, the \<open>catch\<close> stores the
  error and the loop goes on. With one retry left a second create and confirm are made.
\<close>

theorem mismatch_refetch_failure_counterexample:
  "confirm_response broken_refetch_world 0 = Resolved 400 mismatch_body
   \<and> hasError mismatch_body
   \<and> pm_calls (snd (attemptPayment broken_refetch_world sample_url (Literal sample_card) (Num 1)))
       = 2
   \<and> confirm_calls
        (snd (attemptPayment broken_refetch_world sample_url (Literal sample_card) (Num 1))) = 2"
proof -
  have i: "info_response broken_refetch_world 0 = Inr sample_info"
    by (simp add: broken_refetch_world_def)
  have c: "confirm_response broken_refetch_world 0 = Resolved 400 mismatch_body"
    by (simp add: broken_refetch_world_def)
  show ?thesis
    unfolding sample_run [OF i] broken_refetch_run
    using c mismatch_body_has_error by simp
qed

text \<open>
  C4, amended. On any iteration of the loop (\<open>n\<close> attempts made so far, \<open>n \<le> retries\<close>):
  when the payment method is created, the confirm call resolves, the amount-mismatch
  recovery does not throw, and the response that it leaves has \<open>payment_intent.status\<close>
  equal to \<open>requires_payment_method\<close>, a truthy \<open>error\<close> or a truthy
  \<open>payment_intent.last_payment_error\<close>, the loop returns at once with status \<open>declined\<close>,
  \<open>success = false\<close> and \<open>attempts = n + 1\<close>, having made one create call in this
  iteration and none after it. When the confirm response carries no
  \<open>checkout_amount_mismatch\<close> the recovery does nothing, and the response classified is the
  confirm response itself.
\<close>

theorem decline_ends_attempt:
  assumes "num_le (Num (int n)) retries"
    and "resolve_card w src s = (Inr c, s1)"
    and "createPaymentMethod w s1 = (Resolved 200 pmData, s2)"
    and "pm_failed 200 pmData = Inr False"
    and "confirmPayment w False a s2 = (Resolved sc rd, s3)"
    and "mismatch_recovery w a rd s3 = (Inr merged, s4)"
    and "isDeclined merged \<or> hasError merged"
  shows "attempt_loop w src a retries n le s = (Inr (declined_result (Suc n) c merged), s4)
         \<and> \<not> success (declined_result (Suc n) c merged)
         \<and> status (declined_result (Suc n) c merged) = js ''declined''
         \<and> attempts (declined_result (Suc n) c merged) = Suc n
         \<and> pm_calls s4 = Suc (pm_calls s)
         \<and> (get_prop (get_prop rd (js ''error'')) (js ''code'')
               \<noteq> JStr (js ''checkout_amount_mismatch'')
             \<longrightarrow> merged = rd \<and> s4 = s3)"
proof -
  note obj = decline_needs_object [OF assms(6,7)]
  have run: "attempt_loop w src a retries n le s = (Inr (declined_result (Suc n) c merged), s4)"
    using iteration_declined [OF assms(1-7)] obj by simp
  have calls: "pm_calls s4 = Suc (pm_calls s)"
    using resolve_card_io [OF assms(2)] createPaymentMethod_io [OF assms(3)]
      confirmPayment_io [OF assms(5)] mismatch_recovery_io [OF assms(6)]
    by simp
  have same: "merged = rd \<and> s4 = s3"
    if "get_prop (get_prop rd (js ''error'')) (js ''code'') \<noteq> JStr (js ''checkout_amount_mismatch'')"
    using that assms(6) by (simp add: mismatch_recovery_def)
  from run calls same show ?thesis
    by (simp add: declined_result_def Let_def)
qed

theorem decline_ends_attempt_witness:
  "num_le (Num (int 0)) (Num 3)
   \<and> resolve_card declining_world (Literal sample_card) (io0\<lparr>info_calls := 1\<rparr>)
       = (Inr sample_card, io0\<lparr>info_calls := 1\<rparr>)
   \<and> createPaymentMethod declining_world (io0\<lparr>info_calls := 1\<rparr>)
       = (Resolved 200 created_pm, io0\<lparr>info_calls := 1, pm_calls := 1\<rparr>)
   \<and> pm_failed 200 created_pm = Inr False
   \<and> confirmPayment declining_world False (Finite 1200) (io0\<lparr>info_calls := 1, pm_calls := 1\<rparr>)
       = (Resolved 402 card_error_body,
          io0\<lparr>info_calls := 1, pm_calls := 1, confirm_calls := 1, sent_amounts := [Finite 1200]\<rparr>)
   \<and> hasError card_error_body
   \<and> attempt_loop declining_world (Literal sample_card) (Finite 1200) (Num 3) 0 JNull
        (io0\<lparr>info_calls := 1\<rparr>)
       = (Inr (declined_result 1 sample_card card_error_body),
          io0\<lparr>info_calls := 1, pm_calls := 1, confirm_calls := 1, sent_amounts := [Finite 1200]\<rparr>)"
proof -
  let ?s = "io0\<lparr>info_calls := 1\<rparr>"
  let ?s2 = "io0\<lparr>info_calls := 1, pm_calls := 1\<rparr>"
  let ?s3 = "io0\<lparr>info_calls := 1, pm_calls := 1, confirm_calls := 1, sent_amounts := [Finite 1200]\<rparr>"
  have h1: "num_le (Num (int 0)) (Num 3)" by simp
  have h2: "resolve_card declining_world (Literal sample_card) ?s = (Inr sample_card, ?s)"
    by (simp add: resolve_card_def)
  have h3: "createPaymentMethod declining_world ?s = (Resolved 200 created_pm, ?s2)"
    by (simp add: createPaymentMethod_def declining_world_def io0_def)
  have h5: "confirmPayment declining_world False (Finite 1200) ?s2 = (Resolved 402 card_error_body, ?s3)"
    by (simp add: confirmPayment_def declining_world_def io0_def)
  have e: "truthy (get_prop card_error_body (js ''error''))"
    "get_prop (get_prop card_error_body (js ''error'')) (js ''code'') = JStr (js ''card_declined'')"
    by (simp_all add: card_error_body_def js_def)
  have ne: "js ''card_declined'' \<noteq> js ''checkout_amount_mismatch''"
    by (simp add: js_def)
  have h6: "mismatch_recovery declining_world (Finite 1200) card_error_body ?s3 = (Inr card_error_body, ?s3)"
    by (simp add: mismatch_recovery_def e ne)
  have h7: "hasError card_error_body" using e(1) by (simp add: hasError_def)
  from decline_ends_attempt [OF h1 h2 h3 created_pm_ok h5 h6 disjI2 [OF h7], of JNull]
  have "attempt_loop declining_world (Literal sample_card) (Finite 1200) (Num 3) 0 JNull ?s
          = (Inr (declined_result 1 sample_card card_error_body), ?s3)"
    by simp
  with h1 h2 h3 created_pm_ok h5 h7 show ?thesis by simp
qed

subsection \<open>The corrective re-confirm\<close>

lemma mismatch_run:
  "attempt_loop mismatch_world (Literal sample_card) (Finite 1200) (Num 0) 0 JNull (io0\<lparr>info_calls := 1\<rparr>)
   = (Inr (declined_result 1 sample_card (object_assign mismatch_body complete_body)),
      \<lparr>cards_made = 0, pm_calls = 1, confirm_calls = 1, reconfirm_calls = 1, info_calls = 2,
       sent_amounts = [Finite 1200, Finite 1500]\<rparr>)"
proof -
  let ?s = "io0\<lparr>info_calls := 1\<rparr>"
  let ?s2 = "io0\<lparr>info_calls := 1, pm_calls := 1\<rparr>"
  let ?s3 = "io0\<lparr>info_calls := 1, pm_calls := 1, confirm_calls := 1, sent_amounts := [Finite 1200]\<rparr>"
  let ?s4 = "\<lparr>cards_made = 0, pm_calls = 1, confirm_calls = 1, reconfirm_calls = 1,
             info_calls = 2, sent_amounts = [Finite 1200, Finite 1500]\<rparr>"
  have h1: "num_le (Num (int 0)) (Num 0)" by simp
  have h2: "resolve_card mismatch_world (Literal sample_card) ?s = (Inr sample_card, ?s)"
    by (simp add: resolve_card_def)
  have h3: "createPaymentMethod mismatch_world ?s = (Resolved 200 created_pm, ?s2)"
    by (simp add: createPaymentMethod_def mismatch_world_def io0_def)
  have h5: "confirmPayment mismatch_world False (Finite 1200) ?s2 = (Resolved 400 mismatch_body, ?s3)"
    by (simp add: confirmPayment_def mismatch_world_def io0_def)
  have h6: "mismatch_recovery mismatch_world (Finite 1200) mismatch_body ?s3
              = (Inr (object_assign mismatch_body complete_body), ?s4)"
    by (simp add: mismatch_recovery_def mismatch_body_reads fetchCheckoutInfo_def
        confirmPayment_def mismatch_world_def io0_def sample_amounts num_differs_def
        num_positive_def)
  have obj: "mismatch_body \<noteq> JNull" "mismatch_body \<noteq> JUndefined"
    by (simp_all add: mismatch_body_def)
  from iteration_declined [OF h1 h2 h3 created_pm_ok h5 h6
          disjI2 [OF merged_body_has_error] obj, of JNull]
  show ?thesis by simp
qed

text \<open>
  C3 fails on the code. In \<open>mismatch_world\<close> the first confirm answers with
  \<open>checkout_amount_mismatch\<close>, the session fetched again gives 1500 in place of 1200, and
  the corrective confirm answers 200 with status \<open>complete\<close> and no \<open>error\<close>. The source
  comments the merge with "Use retry response", but \<open>Object.assign\<close> keeps the \<open>error\<close> of
  the first response, since the second has no such key: the merged object still has an
  error, and \<open>attemptPayment\<close> returns \<open>declined\<close>.
\<close>

theorem corrective_confirm_still_declined:
  "confirm_response mismatch_world 0 = Resolved 400 mismatch_body
   \<and> get_prop (get_prop mismatch_body (js ''error'')) (js ''code'')
       = JStr (js ''checkout_amount_mismatch'')
   \<and> num_differs (expectedAmountOf updated_info) (expectedAmountOf sample_info)
   \<and> num_positive (expectedAmountOf updated_info)
   \<and> confirm_response mismatch_world 1 = Resolved 200 complete_body
   \<and> isComplete complete_body
   \<and> get_prop complete_body (js ''error'') = JUndefined
   \<and> (\<exists>r s. attemptPayment mismatch_world sample_url (Literal sample_card) (Num 0) = (Inr r, s)
            \<and> \<not> success r \<and> status r = js ''declined'' \<and> attempts r = 1
            \<and> sent_amounts s = [Finite 1200, Finite 1500])"
proof -
  have i: "info_response mismatch_world 0 = Inr sample_info"
    by (simp add: mismatch_world_def)
  have c: "confirm_response mismatch_world 0 = Resolved 400 mismatch_body"
    "confirm_response mismatch_world 1 = Resolved 200 complete_body"
    by (simp_all add: mismatch_world_def)
  have b: "isComplete complete_body" "get_prop complete_body (js ''error'') = JUndefined"
    by (simp_all add: isComplete_def complete_body_def js_def)
  have "\<exists>r s. attemptPayment mismatch_world sample_url (Literal sample_card) (Num 0) = (Inr r, s)
            \<and> \<not> success r \<and> status r = js ''declined'' \<and> attempts r = 1
            \<and> sent_amounts s = [Finite 1200, Finite 1500]"
    unfolding sample_run [OF i] mismatch_run
    by (simp add: declined_result_def Let_def)
  with c b mismatch_body_reads(3) sample_amounts show ?thesis
    by (simp add: num_differs_def num_positive_def)
qed

end
